theory Spec2Isabelle
  imports Complex_Main
begin

section \<open>Values and failures\<close>

text \<open>
  Citation histories are Python lists of (unbounded) integers; thresholds, baselines and
  scores are floating-point numbers, idealised here as reals. The one place where the
  idealisation would hide what the program returns is a float that is not a number
  (numpy's \<open>0.0/0\<close> and the square root of a negative number give \<open>nan\<close> with a warning,
  not an exception), so a score is an \<open>fvalue\<close>: \<open>NaN\<close> or a number.
  Every exception the source can raise is a constructor of \<open>error\<close>.
\<close>

datatype error = ValueError | IndexError | KeyError | ZeroDivisionError

datatype fvalue = NaN | Num real

text \<open>Addition of floats, as Python's \<open>sum\<close> performs it: \<open>nan\<close> absorbs.\<close>

fun fadd :: "fvalue \<Rightarrow> fvalue \<Rightarrow> fvalue" where
  "fadd (Num a) (Num b) = Num (a + b)"
| "fadd _ _ = NaN"

definition fsum :: "fvalue list \<Rightarrow> fvalue" where
  "fsum xs = fold (\<lambda>x acc. fadd acc x) xs (Num 0)"

subsection \<open>numpy primitives\<close>

text \<open>
  \<open>np.max\<close> and \<open>np.argmax\<close> raise \<open>ValueError\<close> on an empty sequence; \<open>np.argmax\<close>
  returns the index of the first occurrence of the maximum. \<open>np.min\<close> likewise.
\<close>

definition np_max :: "'a::linorder list \<Rightarrow> error + 'a" where
  "np_max xs = (case xs of [] \<Rightarrow> Inl ValueError | y # ys \<Rightarrow> Inr (fold max ys y))"

definition np_min :: "'a::linorder list \<Rightarrow> error + 'a" where
  "np_min xs = (case xs of [] \<Rightarrow> Inl ValueError | y # ys \<Rightarrow> Inr (fold min ys y))"

definition np_argmax :: "'a::linorder list \<Rightarrow> error + nat" where
  "np_argmax xs =
     (case xs of [] \<Rightarrow> Inl ValueError
      | y # ys \<Rightarrow> Inr (length (takeWhile (\<lambda>x. x \<noteq> fold max ys y) xs)))"

text \<open>\<open>np.cumsum\<close>: the running totals.\<close>

fun cumsum_from :: "int \<Rightarrow> int list \<Rightarrow> int list" where
  "cumsum_from acc [] = []"
| "cumsum_from acc (x # xs) = (acc + x) # cumsum_from (acc + x) xs"

definition cumsum :: "int list \<Rightarrow> int list" where
  "cumsum c = cumsum_from 0 c"

section \<open>AdjustedGiniCoefficient\<close>

definition AdjustedGiniCoefficient_score :: "int list \<Rightarrow> real" where
  "AdjustedGiniCoefficient_score c =
     (let C = sum_list c; n = length c in
      if C = 0 then 1
      else if n < 2 then 0
      else (real n / real (n - 1)) *
           (1 - (real_of_int (2 * sum_list (map (\<lambda>t. c ! t * int (n - t)) [0..<n]) - C)
                 / real_of_int (int n * C))))"

section \<open>BeautyCoefficient\<close>

text \<open>The helper reads \<open>c[0]\<close> first, which raises \<open>IndexError\<close> on an empty list.\<close>

definition get_c0_tm_ctm :: "'a::linorder list \<Rightarrow> error + ('a \<times> nat \<times> 'a)" where
  "get_c0_tm_ctm c =
     (case c of [] \<Rightarrow> Inl IndexError
      | c0 # _ \<Rightarrow>
          (case np_argmax c of Inl e \<Rightarrow> Inl e
           | Inr tm \<Rightarrow> (case np_max c of Inl e \<Rightarrow> Inl e | Inr ctm \<Rightarrow> Inr (c0, tm, ctm))))"

definition calcB :: "int \<Rightarrow> int \<Rightarrow> nat \<Rightarrow> int \<Rightarrow> int \<Rightarrow> nat \<Rightarrow> real" where
  "calcB ctm c0 tm ct max_ct t =
     (real_of_int ((ctm - c0) * int t) / real tm + real_of_int c0 - real_of_int ct)
       / real_of_int max_ct"

definition BeautyCoefficient_score :: "int list \<Rightarrow> error + real" where
  "BeautyCoefficient_score c =
     (if sum_list c = 0 then Inr 0
      else (case get_c0_tm_ctm c of Inl e \<Rightarrow> Inl e
            | Inr (c0, tm, ctm) \<Rightarrow>
                if tm = 0 then Inr 0
                else Inr (sum_list (map (\<lambda>t. calcB ctm c0 tm (c ! t) (max 1 (c ! t)) t)
                                        [0..<tm + 1]))))"

section \<open>BeautyCoefficientCumulativePercentage\<close>

text \<open>
  \<open>tm\<close> is a numpy integer and the numerator a numpy float, so the division by \<open>tm = 0\<close>
  does not raise: it yields \<open>nan\<close> when the numerator is \<open>0.0\<close> (the only case that
  arises, since \<open>t \<le> tm\<close>) and an infinity otherwise, which the idealisation has no
  value for and reports as \<open>NaN\<close> as well.
\<close>

definition calcBcp :: "real \<Rightarrow> real \<Rightarrow> nat \<Rightarrow> real \<Rightarrow> nat \<Rightarrow> fvalue" where
  "calcBcp ctm c0 tm ct t =
     (if tm = 0 then NaN else Num ((1 - c0) * real t / real tm + c0 - ct))"

definition c_relative :: "int list \<Rightarrow> real list" where
  "c_relative c = map (\<lambda>s. real_of_int s / real_of_int (sum_list c)) (cumsum c)"

definition BeautyCoefficientCumulativePercentage_score :: "int list \<Rightarrow> error + fvalue" where
  "BeautyCoefficientCumulativePercentage_score c =
     (if sum_list c = 0 then Inr (Num 0)
      else (case get_c0_tm_ctm (c_relative c) of Inl e \<Rightarrow> Inl e
            | Inr (c0, tm, ctm) \<Rightarrow>
                Inr (fsum (map (\<lambda>t. calcBcp ctm c0 tm (c_relative c ! t) t) [0..<tm + 1]))))"

section \<open>Quartile\<close>

text \<open>
  \<open>get_c50\<close>: the least offset whose cumulative share reaches one half. \<open>np.where\<close>
  lists the offsets in ascending order; \<open>np.min\<close> of an empty selection raises.
\<close>

definition get_c50 :: "int list \<Rightarrow> error + nat" where
  "get_c50 c =
     (if sum_list c = 0 then Inr 0
      else np_min (filter (\<lambda>t. c_relative c ! t \<ge> 1 / 2) [0..<length c]))"

section \<open>KValue\<close>

text \<open>\<open>np.sqrt\<close> of a negative number is \<open>nan\<close> (with a warning); nothing is raised.\<close>

definition np_sqrt :: "real \<Rightarrow> fvalue" where
  "np_sqrt x = (if x < 0 then NaN else Num (sqrt x))"

definition KValue_score :: "int list \<Rightarrow> fvalue" where
  "KValue_score c =
     (let c20 = take 21 c in
      if sum_list c20 = 0 then Num 0
      else (case np_sqrt (real_of_int (sum_list (map (\<lambda>(i, ct). (int i)\<^sup>2 * ct) (enumerate 0 c20)))
                          / real_of_int (sum_list c20)) of
              NaN \<Rightarrow> NaN
            | Num r \<Rightarrow> Num (r / 20)))"

section \<open>ExponentialQuartile\<close>

text \<open>
  \<open>nw = int(n * 0.2)\<close> is \<open>n div 5\<close> for every length a list can have (the double nearest
  to 0.2 exceeds it by less than one part in \<open>2 ^ 53\<close>, which rounding absorbs).
  A comparison with \<open>nan\<close> is false.
\<close>

definition ExponentialQuartile_extract :: "int list \<Rightarrow> int \<Rightarrow> error + bool" where
  "ExponentialQuartile_extract c k =
     (let n = length c; nw = n div 5; ns = n - nw in
      case np_max (take ns c) of Inl e \<Rightarrow> Inl e
      | Inr cs \<Rightarrow>
          (case np_max (drop ns c) of Inl e \<Rightarrow> Inl e
           | Inr cw \<Rightarrow>
               Inr (cw > 4 * cs \<and>
                    (case np_sqrt (real_of_int (k * int ns)) of
                       NaN \<Rightarrow> False
                     | Num r \<Rightarrow> real_of_int cw > r))))"

section \<open>CitationAngle\<close>

definition np_average :: "int list \<Rightarrow> fvalue" where
  "np_average xs = (if xs = [] then NaN else Num (real_of_int (sum_list xs) / real (length xs)))"

definition np_degrees :: "real \<Rightarrow> real" where
  "np_degrees x = x * 180 / pi"

text \<open>
  In the second branch \<open>th \<ge> 5\<close>, so \<open>t2 \<ge> 5\<close> and the quotient \<open>peak2/t2\<close> has a nonzero
  divisor. \<open>int(len(c)/2)\<close> is \<open>len(c) div 2\<close>. The parameter \<open>span\<close> is written
  \<open>span_min\<close>.
\<close>

definition CitationAngle_extract :: "int list \<Rightarrow> real \<Rightarrow> real \<Rightarrow> real \<Rightarrow> real \<Rightarrow> error + bool" where
  "CitationAngle_extract c c_before_average c_peak angle_after span_min =
     (if length c \<le> 10 then Inr False
      else
        let th = length c div 2 in
        case np_argmax (take th c) of Inl e \<Rightarrow> Inl e
        | Inr t1 \<Rightarrow>
            (let ac1 = np_average (take th c) in
             case np_argmax (drop th c) of Inl e \<Rightarrow> Inl e
             | Inr a2 \<Rightarrow>
                 (let t2 = th + a2 in
                  case np_max (drop th c) of Inl e \<Rightarrow> Inl e
                  | Inr peak2 \<Rightarrow>
                      (let angle2 = np_degrees (arctan (real_of_int peak2 / real t2)) in
                       Inr (real_of_int peak2 > c_peak \<and> angle2 > angle_after \<and>
                            (case ac1 of NaN \<Rightarrow> False | Num a \<Rightarrow> a \<le> c_before_average) \<and>
                            real_of_int (int t2 - int t1) \<ge> span_min)))))"

section \<open>Baseline tables\<close>

text \<open>
  A baseline table is a Python \<open>dict\<close> keyed by \<open>(subject, year)\<close>. Subscripting it with
  an absent key raises \<open>KeyError\<close>. Dividing by a Python number that is zero raises
  \<open>ZeroDivisionError\<close>.
\<close>

type_synonym key = "string \<times> int"

definition lookup :: "('k \<rightharpoonup> 'v) \<Rightarrow> 'k \<Rightarrow> error + 'v" where
  "lookup d k = (case d k of None \<Rightarrow> Inl KeyError | Some v \<Rightarrow> Inr v)"

definition py_div :: "real \<Rightarrow> real \<Rightarrow> error + real" where
  "py_div a b = (if b = 0 then Inl ZeroDivisionError else Inr (a / b))"

section \<open>DNIC.extract\<close>

text \<open>
  The list comprehension \<open>[c[i-year]/ekj_dic[(subj,i)] for i in range(year, y_peak_v-2)]\<close>,
  over the years it is given. Every offset \<open>i - year\<close> it reads is below the peak offset,
  hence inside \<open>c\<close>.
\<close>

fun normalized_before :: "int list \<Rightarrow> string \<Rightarrow> int \<Rightarrow> (key \<rightharpoonup> real) \<Rightarrow> int list \<Rightarrow> error + real list" where
  "normalized_before c subj year ekj_dic [] = Inr []"
| "normalized_before c subj year ekj_dic (i # is) =
     (case lookup ekj_dic (subj, i) of Inl e \<Rightarrow> Inl e
      | Inr b \<Rightarrow>
          (case py_div (real_of_int (c ! nat (i - year))) b of Inl e \<Rightarrow> Inl e
           | Inr q \<Rightarrow>
               (case normalized_before c subj year ekj_dic is of Inl e \<Rightarrow> Inl e
                | Inr qs \<Rightarrow> Inr (q # qs))))"

text \<open>The loop \<open>for subj in subjs\<close>, which returns True at the first subject that passes.\<close>

fun DNIC_subjects ::
  "int list \<Rightarrow> int \<Rightarrow> (key \<rightharpoonup> real) \<Rightarrow> real \<Rightarrow> real \<Rightarrow> int \<Rightarrow> int \<Rightarrow> string list \<Rightarrow> error + bool" where
  "DNIC_subjects c year ekj_dic c_peak c_before_peak y_peak_v c_peak_v [] = Inr False"
| "DNIC_subjects c year ekj_dic c_peak c_before_peak y_peak_v c_peak_v (subj # rest) =
     (case lookup ekj_dic (subj, y_peak_v) of Inl e \<Rightarrow> Inl e
      | Inr b \<Rightarrow>
          (case py_div (real_of_int c_peak_v) b of Inl e \<Rightarrow> Inl e
           | Inr q \<Rightarrow>
               if q > c_peak then
                 (case normalized_before c subj year ekj_dic [year..y_peak_v - 3] of Inl e \<Rightarrow> Inl e
                  | Inr qs \<Rightarrow>
                      (case np_max qs of Inl e \<Rightarrow> Inl e
                       | Inr m \<Rightarrow>
                           if m < c_before_peak then Inr True
                           else DNIC_subjects c year ekj_dic c_peak c_before_peak y_peak_v c_peak_v rest))
               else DNIC_subjects c year ekj_dic c_peak c_before_peak y_peak_v c_peak_v rest))"

definition DNIC_extract ::
  "int list \<Rightarrow> string list \<Rightarrow> int \<Rightarrow> (key \<rightharpoonup> real) \<Rightarrow> real \<Rightarrow> real \<Rightarrow> error + bool" where
  "DNIC_extract c subjs year ekj_dic c_peak c_before_peak =
     (let t_h = length c div 2 in
      case np_argmax c of Inl e \<Rightarrow> Inl e
      | Inr t_peak_v \<Rightarrow>
          (let y_peak_v = year + int t_peak_v; c_peak_v = c ! t_peak_v in
           if t_h < t_peak_v
           then DNIC_subjects c year ekj_dic c_peak c_before_peak y_peak_v c_peak_v subjs
           else Inr False))"

subsection \<open>The same run, with the keys it looks up\<close>

text \<open>
  The functions below are the three above, returning in addition the list of keys with
  which \<open>ekj_dic\<close> was subscripted, in order, up to the point where the run ended.
\<close>

fun normalized_before_log ::
  "int list \<Rightarrow> string \<Rightarrow> int \<Rightarrow> (key \<rightharpoonup> real) \<Rightarrow> int list \<Rightarrow> key list \<times> (error + real list)" where
  "normalized_before_log c subj year ekj_dic [] = ([], Inr [])"
| "normalized_before_log c subj year ekj_dic (i # is) =
     (case lookup ekj_dic (subj, i) of Inl e \<Rightarrow> ([(subj, i)], Inl e)
      | Inr b \<Rightarrow>
          (case py_div (real_of_int (c ! nat (i - year))) b of Inl e \<Rightarrow> ([(subj, i)], Inl e)
           | Inr q \<Rightarrow>
               (case normalized_before_log c subj year ekj_dic is of
                  (ks, Inl e) \<Rightarrow> ((subj, i) # ks, Inl e)
                | (ks, Inr qs) \<Rightarrow> ((subj, i) # ks, Inr (q # qs)))))"

fun DNIC_subjects_log ::
  "int list \<Rightarrow> int \<Rightarrow> (key \<rightharpoonup> real) \<Rightarrow> real \<Rightarrow> real \<Rightarrow> int \<Rightarrow> int \<Rightarrow> string list
     \<Rightarrow> key list \<times> (error + bool)" where
  "DNIC_subjects_log c year ekj_dic c_peak c_before_peak y_peak_v c_peak_v [] = ([], Inr False)"
| "DNIC_subjects_log c year ekj_dic c_peak c_before_peak y_peak_v c_peak_v (subj # rest) =
     (case lookup ekj_dic (subj, y_peak_v) of Inl e \<Rightarrow> ([(subj, y_peak_v)], Inl e)
      | Inr b \<Rightarrow>
          (case py_div (real_of_int c_peak_v) b of Inl e \<Rightarrow> ([(subj, y_peak_v)], Inl e)
           | Inr q \<Rightarrow>
               if q > c_peak then
                 (case normalized_before_log c subj year ekj_dic [year..y_peak_v - 3] of
                    (ks, Inl e) \<Rightarrow> ((subj, y_peak_v) # ks, Inl e)
                  | (ks, Inr qs) \<Rightarrow>
                      (case np_max qs of Inl e \<Rightarrow> ((subj, y_peak_v) # ks, Inl e)
                       | Inr m \<Rightarrow>
                           if m < c_before_peak then ((subj, y_peak_v) # ks, Inr True)
                           else (case DNIC_subjects_log c year ekj_dic c_peak c_before_peak
                                        y_peak_v c_peak_v rest of
                                   (ks', r) \<Rightarrow> ((subj, y_peak_v) # ks @ ks', r))))
               else (case DNIC_subjects_log c year ekj_dic c_peak c_before_peak
                            y_peak_v c_peak_v rest of
                       (ks', r) \<Rightarrow> ((subj, y_peak_v) # ks', r))))"

definition DNIC_extract_log ::
  "int list \<Rightarrow> string list \<Rightarrow> int \<Rightarrow> (key \<rightharpoonup> real) \<Rightarrow> real \<Rightarrow> real \<Rightarrow> key list \<times> (error + bool)" where
  "DNIC_extract_log c subjs year ekj_dic c_peak c_before_peak =
     (let t_h = length c div 2 in
      case np_argmax c of Inl e \<Rightarrow> ([], Inl e)
      | Inr t_peak_v \<Rightarrow>
          (let y_peak_v = year + int t_peak_v; c_peak_v = c ! t_peak_v in
           if t_h < t_peak_v
           then DNIC_subjects_log c year ekj_dic c_peak c_before_peak y_peak_v c_peak_v subjs
           else ([], Inr False)))"

subsection \<open>The classification rule in the specification's words\<close>

text \<open>
  A paper is a hibernator if, for at least one of its subjects, the citation count at the
  peak offset \<open>t_peak\<close>, normalised by the baseline of the peak's absolute year, exceeds
  \<open>c_peak\<close>, and the largest normalised citation count over the years from the publication
  year to three years before the peak year (the range \<open>range(year, y_peak - 2)\<close>) is below
  \<open>c_before_peak\<close>.
\<close>

definition DNIC_rule ::
  "int list \<Rightarrow> string list \<Rightarrow> int \<Rightarrow> (key \<rightharpoonup> real) \<Rightarrow> real \<Rightarrow> real \<Rightarrow> nat \<Rightarrow> bool" where
  "DNIC_rule c subjs year ekj_dic c_peak c_before_peak t_peak =
     (\<exists>subj\<in>set subjs.
        c_peak < real_of_int (c ! t_peak) / the (ekj_dic (subj, year + int t_peak)) \<and>
        Max ((\<lambda>i. real_of_int (c ! nat (i - year)) / the (ekj_dic (subj, i)))
               ` {year..year + int t_peak - 3}) < c_before_peak)"

text \<open>
  The same rule with the window read to include the year two years before the peak year,
  that is, over the years \<open>year, ..., y_peak - 2\<close>.
\<close>

definition DNIC_rule_inclusive ::
  "int list \<Rightarrow> string list \<Rightarrow> int \<Rightarrow> (key \<rightharpoonup> real) \<Rightarrow> real \<Rightarrow> real \<Rightarrow> nat \<Rightarrow> bool" where
  "DNIC_rule_inclusive c subjs year ekj_dic c_peak c_before_peak t_peak =
     (\<exists>subj\<in>set subjs.
        c_peak < real_of_int (c ! t_peak) / the (ekj_dic (subj, year + int t_peak)) \<and>
        Max ((\<lambda>i. real_of_int (c ! nat (i - year)) / the (ekj_dic (subj, i)))
               ` {year..year + int t_peak - 2}) < c_before_peak)"

section \<open>Quartile.extract\<close>

text \<open>
  The score of each subject: 1, 3 or 2. \<open>c_dic_after\<close> is subscripted only when the test
  against \<open>c_dic_before\<close> fails. \<open>np.mean\<close> of an empty list is \<open>nan\<close> (with a warning), and
  \<open>nan >= 2.5\<close> is false.
\<close>

fun Quartile_scores ::
  "int \<Rightarrow> int \<Rightarrow> (key \<rightharpoonup> int) \<Rightarrow> (key \<rightharpoonup> int) \<Rightarrow> string list \<Rightarrow> error + int list" where
  "Quartile_scores c50 year c_dic_before c_dic_after [] = Inr []"
| "Quartile_scores c50 year c_dic_before c_dic_after (subj # rest) =
     (case lookup c_dic_before (subj, year) of Inl e \<Rightarrow> Inl e
      | Inr b \<Rightarrow>
          if c50 < b then
            (case Quartile_scores c50 year c_dic_before c_dic_after rest of Inl e \<Rightarrow> Inl e
             | Inr ss \<Rightarrow> Inr (1 # ss))
          else
            (case lookup c_dic_after (subj, year) of Inl e \<Rightarrow> Inl e
             | Inr a \<Rightarrow>
                 (case Quartile_scores c50 year c_dic_before c_dic_after rest of Inl e \<Rightarrow> Inl e
                  | Inr ss \<Rightarrow> Inr ((if c50 > a then 3 else 2) # ss))))"

definition Quartile_extract ::
  "int \<Rightarrow> string list \<Rightarrow> int \<Rightarrow> (key \<rightharpoonup> int) \<Rightarrow> (key \<rightharpoonup> int) \<Rightarrow> error + bool" where
  "Quartile_extract c50 subjs year c_dic_before c_dic_after =
     (case Quartile_scores c50 year c_dic_before c_dic_after subjs of Inl e \<Rightarrow> Inl e
      | Inr scores \<Rightarrow>
          Inr (case np_average scores of NaN \<Rightarrow> False | Num m \<Rightarrow> m \<ge> 5 / 2))"

text \<open>The same, with the subscripts made: which table, and which key.\<close>

datatype table = Before | After

fun Quartile_scores_log ::
  "int \<Rightarrow> int \<Rightarrow> (key \<rightharpoonup> int) \<Rightarrow> (key \<rightharpoonup> int) \<Rightarrow> string list
     \<Rightarrow> (table \<times> key) list \<times> (error + int list)" where
  "Quartile_scores_log c50 year c_dic_before c_dic_after [] = ([], Inr [])"
| "Quartile_scores_log c50 year c_dic_before c_dic_after (subj # rest) =
     (case lookup c_dic_before (subj, year) of Inl e \<Rightarrow> ([(Before, subj, year)], Inl e)
      | Inr b \<Rightarrow>
          if c50 < b then
            (case Quartile_scores_log c50 year c_dic_before c_dic_after rest of
               (ks, Inl e) \<Rightarrow> ((Before, subj, year) # ks, Inl e)
             | (ks, Inr ss) \<Rightarrow> ((Before, subj, year) # ks, Inr (1 # ss)))
          else
            (case lookup c_dic_after (subj, year) of
               Inl e \<Rightarrow> ([(Before, subj, year), (After, subj, year)], Inl e)
             | Inr a \<Rightarrow>
                 (case Quartile_scores_log c50 year c_dic_before c_dic_after rest of
                    (ks, Inl e) \<Rightarrow> ((Before, subj, year) # (After, subj, year) # ks, Inl e)
                  | (ks, Inr ss) \<Rightarrow>
                      ((Before, subj, year) # (After, subj, year) # ks,
                       Inr ((if c50 > a then 3 else 2) # ss)))))"

definition Quartile_extract_log ::
  "int \<Rightarrow> string list \<Rightarrow> int \<Rightarrow> (key \<rightharpoonup> int) \<Rightarrow> (key \<rightharpoonup> int)
     \<Rightarrow> (table \<times> key) list \<times> (error + bool)" where
  "Quartile_extract_log c50 subjs year c_dic_before c_dic_after =
     (case Quartile_scores_log c50 year c_dic_before c_dic_after subjs of
        (ks, Inl e) \<Rightarrow> (ks, Inl e)
      | (ks, Inr scores) \<Rightarrow>
          (ks, Inr (case np_average scores of NaN \<Rightarrow> False | Num m \<Rightarrow> m \<ge> 5 / 2)))"

section \<open>Corpus routines\<close>

text \<open>
  Both routines build a DataFrame with one row per paper from three parallel lists. The
  lists are taken to have the same length (pandas pads shorter ones with missing values,
  which is not modelled). A Python \<open>set\<close> is iterated in an order of its own; here it is
  the order of first occurrence. Each key is written once, and every failure is an
  \<open>IndexError\<close>, so the outcome does not depend on that order.
\<close>

type_synonym 'a row = "'a \<times> string list \<times> int"

definition frame :: "'a list \<Rightarrow> string list list \<Rightarrow> int list \<Rightarrow> 'a row list" where
  "frame xs subjs_list year_list = zip xs (zip subjs_list year_list)"

text \<open>
  Subscripting a Python list, and pandas' \<open>iloc\<close>, with an integer: a negative index
  counts from the end, and an index outside the list raises \<open>IndexError\<close>.
  \<open>int(x)\<close> truncates a float toward zero.
\<close>

definition py_index :: "'a list \<Rightarrow> int \<Rightarrow> error + 'a" where
  "py_index xs i =
     (if 0 \<le> i \<and> i < int (length xs) then Inr (xs ! nat i)
      else if i < 0 \<and> - int (length xs) \<le> i then Inr (xs ! nat (int (length xs) + i))
      else Inl IndexError)"

definition py_int :: "real \<Rightarrow> int" where
  "py_int x = (if 0 \<le> x then \<lfloor>x\<rfloor> else \<lceil>x\<rceil>)"

text \<open>
  The product of two doubles is the exact product rounded to the nearest double, ties to
  the even mantissa: 53 significant bits, so the spacing of the doubles around \<open>x\<close> is
  \<open>2\<close> to the power \<open>floor(log2 |x|) - 52\<close>. Overflow and the subnormal range are not
  modelled; the products below are of a list length and a rate, and where such a product
  is subnormal its integer part is 0 with or without the rounding. A list length is below
  \<open>2 ^ 53\<close> and converts to a double exactly.
\<close>

definition round_half_even :: "real \<Rightarrow> int" where
  "round_half_even x =
     (let f = \<lfloor>x\<rfloor> in
      if x - of_int f < 1 / 2 then f
      else if 1 / 2 < x - of_int f then f + 1
      else if even f then f else f + 1)"

definition round_double :: "real \<Rightarrow> real" where
  "round_double x =
     (if x = 0 then 0
      else (let u = 2 powr of_int (\<lfloor>log 2 \<bar>x\<bar>\<rfloor> - 52)
            in of_int (round_half_even (x / u)) * u))"

subsection \<open>Quartile.get_c_dic\<close>

definition c_dic_targets :: "int row list \<Rightarrow> string \<Rightarrow> int \<Rightarrow> int row list" where
  "c_dic_targets df subj year = filter (\<lambda>(c50, subjs, y). y = year \<and> subj \<in> set subjs) df"

fun get_c_dic_subjs ::
  "int row list \<Rightarrow> real \<Rightarrow> int \<Rightarrow> string list \<Rightarrow> (key \<rightharpoonup> int) \<Rightarrow> error + (key \<rightharpoonup> int)" where
  "get_c_dic_subjs df rate year [] c_dic = Inr c_dic"
| "get_c_dic_subjs df rate year (subj # rest) c_dic =
     (let targets = c_dic_targets df subj year in
      if targets \<noteq> [] then
        (case py_index (sort (map fst targets))
                (py_int (round_double (real (length targets) * rate))) of
           Inl e \<Rightarrow> Inl e
         | Inr v \<Rightarrow> get_c_dic_subjs df rate year rest (c_dic((subj, year) \<mapsto> v)))
      else get_c_dic_subjs df rate year rest c_dic)"

fun get_c_dic_years ::
  "int row list \<Rightarrow> real \<Rightarrow> int list \<Rightarrow> string list \<Rightarrow> (key \<rightharpoonup> int) \<Rightarrow> error + (key \<rightharpoonup> int)" where
  "get_c_dic_years df rate [] subjs c_dic = Inr c_dic"
| "get_c_dic_years df rate (year # rest) subjs c_dic =
     (case get_c_dic_subjs df rate year subjs c_dic of Inl e \<Rightarrow> Inl e
      | Inr c_dic' \<Rightarrow> get_c_dic_years df rate rest subjs c_dic')"

definition get_c_dic ::
  "int list \<Rightarrow> string list list \<Rightarrow> int list \<Rightarrow> real \<Rightarrow> error + (key \<rightharpoonup> int)" where
  "get_c_dic c50_list subjs_list year_list rate =
     (let df = frame c50_list subjs_list year_list in
      get_c_dic_years df rate (remdups (map (\<lambda>(c50, subjs, y). y) df))
        (remdups (concat (map (\<lambda>(c50, subjs, y). subjs) df))) Map.empty)"

text \<open>
  The group of an exact \<open>(subject, year)\<close> pair, paper by paper: the \<open>c50\<close> values of the
  papers published in that year and tagged with that subject.
\<close>

definition c50_group :: "int list \<Rightarrow> string list list \<Rightarrow> int list \<Rightarrow> string \<Rightarrow> int \<Rightarrow> int list" where
  "c50_group c50_list subjs_list year_list subj year =
     map (\<lambda>i. c50_list ! i)
       (filter (\<lambda>i. year_list ! i = year \<and> subj \<in> set (subjs_list ! i)) [0..<length c50_list])"

text \<open>
  The element at index \<open>floor(count * rate)\<close> of the values sorted in ascending order, the
  product being the exact one.
\<close>

definition order_statistic :: "int list \<Rightarrow> real \<Rightarrow> int" where
  "order_statistic g rate = sort g ! nat \<lfloor>real (length g) * rate\<rfloor>"

text \<open>
  The element at index \<open>int(count * rate)\<close>, the product being the double one: the
  position the program computes.
\<close>

definition rounded_order_statistic :: "int list \<Rightarrow> real \<Rightarrow> int" where
  "rounded_order_statistic g rate = sort g ! nat \<lfloor>round_double (real (length g) * rate)\<rfloor>"

subsection \<open>DNIC.get_ekj\<close>

definition ekj_targets :: "int list row list \<Rightarrow> string \<Rightarrow> int \<Rightarrow> int list row list" where
  "ekj_targets df subj year = filter (\<lambda>(c, subjs, y). y \<le> year \<and> subj \<in> set subjs) df"

text \<open>\<open>targets.apply(lambda row: row['c'][year - row['year']], axis=1)\<close>, row after row.\<close>

fun citations_kj :: "int list row list \<Rightarrow> int \<Rightarrow> error + int list" where
  "citations_kj [] year = Inr []"
| "citations_kj ((c, subjs, y) # rest) year =
     (case py_index c (year - y) of Inl e \<Rightarrow> Inl e
      | Inr v \<Rightarrow>
          (case citations_kj rest year of Inl e \<Rightarrow> Inl e | Inr vs \<Rightarrow> Inr (v # vs)))"

text \<open>
  The value written for a cell: the sentinel \<open>-1\<close> when no citation count reaches 1, else
  the sum of all the counts divided by the number of those that do.
\<close>

definition ekj_value :: "int list \<Rightarrow> real" where
  "ekj_value citations =
     (let N_kj = length (filter (\<lambda>x. x \<ge> 1) citations) in
      if N_kj = 0 then - 1 else real_of_int (sum_list citations) / real N_kj)"

fun get_ekj_subjs ::
  "int list row list \<Rightarrow> int \<Rightarrow> string list \<Rightarrow> (key \<rightharpoonup> real) \<Rightarrow> error + (key \<rightharpoonup> real)" where
  "get_ekj_subjs df year [] ekj_dic = Inr ekj_dic"
| "get_ekj_subjs df year (subj # rest) ekj_dic =
     (let targets = ekj_targets df subj year in
      if targets \<noteq> [] then
        (case citations_kj targets year of Inl e \<Rightarrow> Inl e
         | Inr cs \<Rightarrow> get_ekj_subjs df year rest (ekj_dic((subj, year) \<mapsto> ekj_value cs)))
      else get_ekj_subjs df year rest ekj_dic)"

fun get_ekj_years ::
  "int list row list \<Rightarrow> int list \<Rightarrow> string list \<Rightarrow> (key \<rightharpoonup> real) \<Rightarrow> error + (key \<rightharpoonup> real)" where
  "get_ekj_years df [] subjs ekj_dic = Inr ekj_dic"
| "get_ekj_years df (year # rest) subjs ekj_dic =
     (case get_ekj_subjs df year subjs ekj_dic of Inl e \<Rightarrow> Inl e
      | Inr ekj_dic' \<Rightarrow> get_ekj_years df rest subjs ekj_dic')"

definition get_ekj ::
  "int list list \<Rightarrow> string list list \<Rightarrow> int list \<Rightarrow> error + (key \<rightharpoonup> real)" where
  "get_ekj c_list subjs_list year_list =
     get_ekj_years (frame c_list subjs_list year_list) (remdups year_list)
       (remdups (concat subjs_list)) Map.empty"

text \<open>
  The papers a cell is about, by their positions in the corpus: those tagged with the
  subject and published on or before the year; among them the qualifying ones, with at
  least one citation in that absolute year; and the mean citation of the qualifying ones.
\<close>

definition published_by :: "string list list \<Rightarrow> int list \<Rightarrow> string \<Rightarrow> int \<Rightarrow> nat list" where
  "published_by subjs_list year_list subj year =
     filter (\<lambda>i. year_list ! i \<le> year \<and> subj \<in> set (subjs_list ! i)) [0..<length year_list]"

definition cited_in :: "int list list \<Rightarrow> int list \<Rightarrow> int \<Rightarrow> nat \<Rightarrow> int" where
  "cited_in c_list year_list year i = c_list ! i ! nat (year - year_list ! i)"

definition qualifying :: "int list list \<Rightarrow> string list list \<Rightarrow> int list \<Rightarrow> string \<Rightarrow> int \<Rightarrow> nat list" where
  "qualifying c_list subjs_list year_list subj year =
     filter (\<lambda>i. 1 \<le> cited_in c_list year_list year i) (published_by subjs_list year_list subj year)"

definition mean_citation :: "int list list \<Rightarrow> string list list \<Rightarrow> int list \<Rightarrow> string \<Rightarrow> int \<Rightarrow> real" where
  "mean_citation c_list subjs_list year_list subj year =
     real_of_int (sum_list (map (cited_in c_list year_list year)
                              (qualifying c_list subjs_list year_list subj year)))
       / real (length (qualifying c_list subjs_list year_list subj year))"

section \<open>Degenerate histories\<close>

text \<open>
  Claim C5. For every citation history (the empty one included) whose total is zero,
  the adjusted Gini coefficient is 1.0, both beauty coefficients are 0 and \<open>get_c50\<close>
  is 0; each of the four calls returns normally.
\<close>

theorem zero_total_scores:
  "sum_list c = 0 \<Longrightarrow>
     AdjustedGiniCoefficient_score c = 1 \<and>
     BeautyCoefficient_score c = Inr 0 \<and>
     BeautyCoefficientCumulativePercentage_score c = Inr (Num 0) \<and>
     get_c50 c = Inr 0"
  by (simp add: AdjustedGiniCoefficient_score_def BeautyCoefficient_score_def
      BeautyCoefficientCumulativePercentage_score_def get_c50_def)

theorem zero_total_scores_witness:
  "sum_list [0, 0, 0 :: int] = 0 \<and>
   AdjustedGiniCoefficient_score [0, 0, 0] = 1 \<and>
   BeautyCoefficient_score [0, 0, 0] = Inr 0 \<and>
   BeautyCoefficientCumulativePercentage_score [0, 0, 0] = Inr (Num 0) \<and>
   get_c50 [0, 0, 0] = Inr 0 \<and>
   AdjustedGiniCoefficient_score [] = 1 \<and>
   BeautyCoefficient_score [] = Inr 0 \<and>
   BeautyCoefficientCumulativePercentage_score [] = Inr (Num 0) \<and>
   get_c50 [] = Inr 0"
  using zero_total_scores [of "[0, 0, 0]"] zero_total_scores [of "[]"] by simp

section \<open>Facts about the numpy primitives\<close>

lemma fold_max_Max: "fold max ys y = Max (set (y # ys))"
  by (rule Max.set_eq_fold [symmetric])

lemma np_max_Max: "xs \<noteq> [] \<Longrightarrow> np_max xs = Inr (Max (set xs))"
  by (cases xs) (simp_all add: np_max_def fold_max_Max del: list.set set_simps)

lemma np_argmax_Least:
  assumes "xs \<noteq> []"
  shows "np_argmax xs = Inr (LEAST i. xs ! i = Max (set xs))"
proof -
  obtain y ys where xs: "xs = y # ys" using assms by (cases xs) auto
  define m where "m = Max (set xs)"
  have m: "fold max ys y = m" unfolding m_def xs by (rule fold_max_Max)
  have mem: "m \<in> set xs" unfolding m_def using assms by (intro Max_in) auto
  define k where "k = length (takeWhile (\<lambda>x. x \<noteq> m) xs)"
  have klt: "k < length xs"
  proof -
    have "takeWhile (\<lambda>x. x \<noteq> m) xs \<noteq> xs"
      using mem by (auto simp: takeWhile_eq_all_conv)
    then have "dropWhile (\<lambda>x. x \<noteq> m) xs \<noteq> []"
      by (metis takeWhile_dropWhile_id append_Nil2)
    moreover have "length xs = k + length (dropWhile (\<lambda>x. x \<noteq> m) xs)"
      unfolding k_def by (metis takeWhile_dropWhile_id length_append)
    ultimately show ?thesis by simp
  qed
  have at: "xs ! k = m" using nth_length_takeWhile[of "\<lambda>x. x \<noteq> m" xs] klt unfolding k_def by auto
  have before: "\<And>j. j < k \<Longrightarrow> xs ! j \<noteq> m"
  proof -
    fix j assume "j < k"
    then have "takeWhile (\<lambda>x. x \<noteq> m) xs ! j = xs ! j" unfolding k_def by (rule takeWhile_nth)
    moreover have "takeWhile (\<lambda>x. x \<noteq> m) xs ! j \<in> set (takeWhile (\<lambda>x. x \<noteq> m) xs)"
      using \<open>j < k\<close> unfolding k_def by simp
    ultimately show "xs ! j \<noteq> m" using set_takeWhileD by metis
  qed
  have least: "(LEAST i. xs ! i = m) = k"
    by (rule Least_equality) (use at before in \<open>auto simp: not_less[symmetric]\<close>)
  have "np_argmax xs = Inr (length (takeWhile (\<lambda>x. x \<noteq> fold max ys y) xs))"
    by (simp add: np_argmax_def xs)
  also have "\<dots> = Inr k" by (simp only: m k_def)
  finally show ?thesis using least by (simp add: m_def)
qed

section \<open>The cumulative-percentage beauty coefficient at an early peak\<close>

text \<open>
  Claim C3. The claim gives \<open>BeautyCoefficientCumulativePercentage.score\<close> the rule of
  \<open>BeautyCoefficient\<close>, which returns 0 when the peak index \<open>tm\<close> is 0. The function
  has no such branch: for a paper cited only in its publication year the cumulative share
  is 1 from offset 0 on, \<open>tm = 0\<close>, and the single term divides \<open>0.0\<close> by \<open>tm\<close>. The
  result is \<open>nan\<close>, not 0.
\<close>

theorem BCP_peak_at_publication_year:
  "BeautyCoefficientCumulativePercentage_score [5, 0, 0] = Inr NaN"
  by (simp add: BeautyCoefficientCumulativePercentage_score_def get_c0_tm_ctm_def c_relative_def cumsum_def np_argmax_def np_max_def calcBcp_def fsum_def)

section \<open>KValue reads the first 21 entries only\<close>

lemma sum_list_enumerate:
  "sum_list (map (\<lambda>(i, ct). f i ct) (enumerate 0 xs)) = (\<Sum>t<length xs. f t (xs ! t))"
proof -
  have "sum_list (map (\<lambda>(i, ct). f i ct) (enumerate 0 xs))
      = (\<Sum>t = 0..<length xs. map (\<lambda>(i, ct). f i ct) (enumerate 0 xs) ! t)"
    by (simp add: sum_list_sum_nth)
  also have "\<dots> = (\<Sum>t = 0..<length xs. f t (xs ! t))"
    by (rule sum.cong) (simp_all add: nth_enumerate_eq)
  finally show ?thesis by (simp add: lessThan_atLeast0)
qed

lemma sum_list_take_nth:
  "sum_list (take n xs) = (\<Sum>t<min n (length xs). xs ! t)"
proof -
  have "sum_list (take n xs) = (\<Sum>t = 0..<length (take n xs). take n xs ! t)"
    by (simp add: sum_list_sum_nth)
  also have "\<dots> = (\<Sum>t = 0..<min n (length xs). xs ! t)"
    by (rule sum.cong) (simp_all add: min.commute)
  finally show ?thesis by (simp add: lessThan_atLeast0)
qed

lemma weighted_take_nth:
  "sum_list (map (\<lambda>(i, ct). (int i)\<^sup>2 * ct) (enumerate 0 (take n xs)))
     = (\<Sum>t<min n (length xs). (int t)\<^sup>2 * xs ! t)"
  by (simp add: sum_list_enumerate min.commute)

text \<open>
  Claim C8. \<open>KValue.score\<close> is determined by the first 21 entries of the history: two
  histories that agree there have the same score. It is 0 when those entries sum to
  zero, and otherwise (citation counts being non-negative) it is the square root of
  \<open>(\<Sum> t\<^sup>2 * c\<^sub>t) / (\<Sum> c\<^sub>t)\<close>, the sums over the offsets \<open>t \<le> 20\<close> the history has,
  divided by 20.
\<close>

theorem KValue_first_21:
  "(take 21 c' = take 21 c \<longrightarrow> KValue_score c' = KValue_score c) \<and>
   ((\<Sum>t<min 21 (length c). c ! t) = 0 \<longrightarrow> KValue_score c = Num 0) \<and>
   ((\<Sum>t<min 21 (length c). c ! t) \<noteq> 0 \<and> (\<forall>t<min 21 (length c). 0 \<le> c ! t) \<longrightarrow>
      KValue_score c =
        Num (sqrt (real_of_int (\<Sum>t<min 21 (length c). (int t)\<^sup>2 * c ! t)
                   / real_of_int (\<Sum>t<min 21 (length c). c ! t)) / 20))"
proof (intro conjI impI)
  assume "take 21 c' = take 21 c"
  then show "KValue_score c' = KValue_score c" by (simp add: KValue_score_def)
next
  assume "(\<Sum>t<min 21 (length c). c ! t) = 0"
  then show "KValue_score c = Num 0" by (simp add: KValue_score_def sum_list_take_nth)
next
  assume a: "(\<Sum>t<min 21 (length c). c ! t) \<noteq> 0 \<and> (\<forall>t<min 21 (length c). 0 \<le> c ! t)"
  let ?S = "\<Sum>t<min 21 (length c). c ! t" and ?W = "\<Sum>t<min 21 (length c). (int t)\<^sup>2 * c ! t"
  have "0 \<le> ?S" using a by (intro sum_nonneg) simp
  moreover have "0 \<le> ?W" using a by (intro sum_nonneg) simp
  ultimately have "0 \<le> real_of_int ?W / real_of_int ?S"
    by (intro divide_nonneg_nonneg) (simp_all only: of_int_0_le_iff)
  then have "\<not> real_of_int ?W / real_of_int ?S < 0"
    by (simp only: not_less)
  then show "KValue_score c = Num (sqrt (real_of_int ?W / real_of_int ?S) / 20)"
    using a by (simp add: KValue_score_def sum_list_take_nth weighted_take_nth np_sqrt_def)
qed

theorem KValue_first_21_witness:
  "KValue_score [0, 0, 0, 0, 0, 0, 0, 0, 0, 0, 0, 0, 0, 0, 0, 0, 0, 0, 0, 0, 0, 7] = Num 0 \<and>
   KValue_score [0, 1, 0, 0, 0, 0, 0, 0, 0, 0, 0, 0, 0, 0, 0, 0, 0, 0, 0, 0, 0, 9]
     = KValue_score [0, 1, 0, 0, 0, 0, 0, 0, 0, 0, 0, 0, 0, 0, 0, 0, 0, 0, 0, 0, 0, 4, 4] \<and>
   KValue_score [0, 1] = Num (1 / 20)"
proof -
  let ?z = "[0, 0, 0, 0, 0, 0, 0, 0, 0, 0, 0, 0, 0, 0, 0, 0, 0, 0, 0, 0, 0, 7 :: int]"
  let ?a = "[0, 1, 0, 0, 0, 0, 0, 0, 0, 0, 0, 0, 0, 0, 0, 0, 0, 0, 0, 0, 0, 9 :: int]"
  let ?b = "[0, 1 :: int]"
  have lt: "{..<21::nat} = {0..<21}" by (simp add: lessThan_atLeast0)
  have z: "(\<Sum>t<min 21 (length ?z). ?z ! t) = 0"
    by (simp add: lessThan_atLeast0 sum.atLeast0_lessThan_Suc eval_nat_numeral)
  have b: "(\<Sum>t<min 21 (length ?b). ?b ! t) = 1" "(\<Sum>t<min 21 (length ?b). (int t)\<^sup>2 * ?b ! t) = 1"
      "\<forall>t<min 21 (length ?b). 0 \<le> ?b ! t"
    by (simp_all add: lessThan_atLeast0 sum.atLeast0_lessThan_Suc eval_nat_numeral less_Suc_eq)
  let ?a' = "[0, 1, 0, 0, 0, 0, 0, 0, 0, 0, 0, 0, 0, 0, 0, 0, 0, 0, 0, 0, 0, 4, 4 :: int]"
  have a: "take 21 ?a = take 21 ?a'" by (simp add: eval_nat_numeral)
  show ?thesis
    using KValue_first_21 [of ?z ?z] KValue_first_21 [of ?a ?a'] KValue_first_21 [of ?b ?b] z b a
    by simp
qed

section \<open>ExponentialQuartile is antitone in k\<close>

text \<open>
  Claim C6. For a fixed history and hyperparameters \<open>0 \<le> k1 \<le> k2\<close>, a paper that
  \<open>ExponentialQuartile.extract\<close> accepts at \<open>k2\<close> is accepted at \<open>k1\<close>: raising \<open>k\<close> can
  only turn True into False. (A negative \<open>k\<close> is not a valid hyperparameter: the square
  root is \<open>nan\<close> and the test fails.)
\<close>

theorem ExponentialQuartile_antitone:
  assumes "0 \<le> k1" and "k1 \<le> k2"
    and "ExponentialQuartile_extract c k2 = Inr True"
  shows "ExponentialQuartile_extract c k1 = Inr True"
proof -
  let ?ns = "length c - length c div 5"
  obtain cs where cs: "np_max (take ?ns c) = Inr cs"
    using assms(3) by (cases "np_max (take ?ns c)") (simp_all add: ExponentialQuartile_extract_def)
  obtain cw where cw: "np_max (drop ?ns c) = Inr cw"
    using assms(3) cs by (cases "np_max (drop ?ns c)") (simp_all add: ExponentialQuartile_extract_def)
  define r1 where "r1 = real_of_int (k1 * int ?ns)"
  define r2 where "r2 = real_of_int (k2 * int ?ns)"
  have nn1: "\<not> r1 < 0" unfolding r1_def using assms(1) by (simp add: not_less)
  have "r1 \<le> r2" unfolding r1_def r2_def using assms(2) by (simp add: mult_right_mono)
  then have nn2: "\<not> r2 < 0" and le: "sqrt r1 \<le> sqrt r2" using nn1 by simp_all
  have eq: "ExponentialQuartile_extract c k =
      Inr (cw > 4 * cs \<and> (case np_sqrt (real_of_int (k * int ?ns)) of
                               NaN \<Rightarrow> False | Num r \<Rightarrow> real_of_int cw > r))" for k
    unfolding ExponentialQuartile_extract_def Let_def cs cw by (simp only: sum.case)
  from assms(3) [unfolded eq, folded r2_def]
  have big: "4 * cs < cw" and r2: "sqrt r2 < real_of_int cw"
    using nn2 by (simp_all add: np_sqrt_def)
  have "sqrt r1 < real_of_int cw"
    by (rule order_le_less_trans [OF le]) fact
  then show ?thesis
    unfolding eq unfolding r1_def [symmetric] using big nn1 by (simp add: np_sqrt_def)
qed

theorem ExponentialQuartile_antitone_witness:
  "(0::int) \<le> 1 \<and> (1::int) \<le> 4 \<and>
   ExponentialQuartile_extract [0, 0, 0, 0, 5] 4 = Inr True \<and>
   ExponentialQuartile_extract [0, 0, 0, 0, 5] 1 = Inr True"
proof -
  have s: "sqrt 16 = 4" using real_sqrt_abs [of 4] by simp
  have k2: "ExponentialQuartile_extract [0, 0, 0, 0, 5] 4 = Inr True"
    by (simp add: ExponentialQuartile_extract_def np_max_def np_sqrt_def s)
  from ExponentialQuartile_antitone [of 1 4 "[0, 0, 0, 0, 5]"] k2 show ?thesis by simp
qed

section \<open>CitationAngle\<close>

text \<open>
  Claim C9. \<open>CitationAngle.extract\<close> returns False for every history of length at most
  10, whatever the thresholds. For a longer history, split at the midpoint \<open>th\<close>, it
  returns True exactly when all four conditions hold: the peak of the second half exceeds
  \<open>c_peak\<close>; the angle \<open>atan(peak2/t2)\<close> in degrees exceeds \<open>angle_after\<close>, \<open>t2\<close> being the
  offset of the first occurrence of that peak; the average of the first half is at most
  \<open>c_before_average\<close>; and \<open>t2\<close> is at least \<open>span\<close> after the offset of the first-half peak.
\<close>

theorem CitationAngle_extract_spec:
  "(length c \<le> 10 \<longrightarrow> CitationAngle_extract c cba cp aa sp = Inr False) \<and>
   (10 < length c \<longrightarrow>
      CitationAngle_extract c cba cp aa sp =
        Inr (let th = length c div 2; pre = take th c; post = drop th c;
                 peak2 = Max (set post);
                 t2 = th + (LEAST i. post ! i = peak2);
                 t1 = (LEAST i. pre ! i = Max (set pre))
             in cp < real_of_int peak2 \<and>
                aa < arctan (real_of_int peak2 / real t2) * 180 / pi \<and>
                real_of_int (sum_list pre) / real th \<le> cba \<and>
                sp \<le> real t2 - real t1))"
proof (intro conjI impI)
  assume "length c \<le> 10"
  then show "CitationAngle_extract c cba cp aa sp = Inr False"
    by (simp add: CitationAngle_extract_def)
next
  assume len: "10 < length c"
  let ?th = "length c div 2"
  have pre: "take ?th c \<noteq> []" and post: "drop ?th c \<noteq> []" using len by auto
  have avg: "np_average (take ?th c) = Num (real_of_int (sum_list (take ?th c)) / real ?th)"
    using pre by (simp add: np_average_def min_def)
  show "CitationAngle_extract c cba cp aa sp =
        Inr (let th = length c div 2; pre = take th c; post = drop th c;
                 peak2 = Max (set post);
                 t2 = th + (LEAST i. post ! i = peak2);
                 t1 = (LEAST i. pre ! i = Max (set pre))
             in cp < real_of_int peak2 \<and>
                aa < arctan (real_of_int peak2 / real t2) * 180 / pi \<and>
                real_of_int (sum_list pre) / real th \<le> cba \<and>
                sp \<le> real t2 - real t1)"
    using len
    by (simp add: CitationAngle_extract_def Let_def np_argmax_Least [OF pre]
        np_argmax_Least [OF post] np_max_Max [OF post] avg np_degrees_def)
qed

theorem CitationAngle_extract_spec_witness:
  "CitationAngle_extract [] 2 20 5 10 = Inr False \<and>
   CitationAngle_extract [0, 0, 0, 0, 0, 0, 0, 0, 0, 0, 30] 2 20 5 10 = Inr True \<and>
   (let th = length [0, 0, 0, 0, 0, 0, 0, 0, 0, 0, 30 :: int] div 2;
        pre = take th [0, 0, 0, 0, 0, 0, 0, 0, 0, 0, 30 :: int];
        post = drop th [0, 0, 0, 0, 0, 0, 0, 0, 0, 0, 30 :: int];
        peak2 = Max (set post);
        t2 = th + (LEAST i. post ! i = peak2);
        t1 = (LEAST i. pre ! i = Max (set pre))
    in 20 < real_of_int peak2 \<and>
       5 < arctan (real_of_int peak2 / real t2) * 180 / pi \<and>
       real_of_int (sum_list pre) / real th \<le> 2 \<and>
       10 \<le> real t2 - real t1)"
proof -
  let ?c = "[0, 0, 0, 0, 0, 0, 0, 0, 0, 0, 30 :: int]"
  have "arctan 1 < arctan (3::real)" by (simp only: arctan_less_iff one_less_numeral_iff num.simps semiring_norm)
  then have "pi / 4 < arctan 3" by (simp add: arctan_one)
  then have "5 * pi < arctan 3 * 180" using pi_gt_zero by linarith
  then have ang: "5 < np_degrees (arctan 3)"
    using pi_gt_zero by (simp add: np_degrees_def pos_less_divide_eq)
  have run: "CitationAngle_extract ?c 2 20 5 10 = Inr True"
    using ang by (simp add: CitationAngle_extract_def np_argmax_def np_max_def np_average_def)
  have len: "length ?c \<le> 10 \<longleftrightarrow> False" "10 < length ?c" by simp_all
  from CitationAngle_extract_spec [of "[]" 2 20 5 10]
  have "CitationAngle_extract [] 2 20 5 10 = Inr False" by simp
  moreover from CitationAngle_extract_spec [of ?c 2 20 5 10] len(2) run
  have "Inr True = (Inr (let th = length ?c div 2;
        pre = take th ?c;
        post = drop th ?c;
        peak2 = Max (set post);
        t2 = th + (LEAST i. post ! i = peak2);
        t1 = (LEAST i. pre ! i = Max (set pre))
    in 20 < real_of_int peak2 \<and>
       5 < arctan (real_of_int peak2 / real t2) * 180 / pi \<and>
       real_of_int (sum_list pre) / real th \<le> 2 \<and>
       10 \<le> real t2 - real t1) :: error + bool)"
    by (simp only: )
  ultimately show ?thesis using run by (simp only: sum.inject simp_thms)
qed

section \<open>Missing baseline keys\<close>

lemma normalized_before_log_snd:
  "snd (normalized_before_log c subj year ekj is) = normalized_before c subj year ekj is"
  by (induction "is") (auto split: sum.splits prod.splits)

lemma DNIC_subjects_log_snd:
  "snd (DNIC_subjects_log c year ekj cp cbp yp cpv ss) = DNIC_subjects c year ekj cp cbp yp cpv ss"
proof (induction ss)
  case Nil
  then show ?case by simp
next
  case (Cons s ss)
  have nb: "normalized_before c s year ekj [year..yp - 3]
      = snd (normalized_before_log c s year ekj [year..yp - 3])"
    by (simp add: normalized_before_log_snd)
  show ?case
    using Cons.IH unfolding DNIC_subjects_log.simps DNIC_subjects.simps nb
    by (auto split: sum.splits prod.splits)
qed

lemma DNIC_extract_log_snd:
  "snd (DNIC_extract_log c subjs year ekj cp cbp) = DNIC_extract c subjs year ekj cp cbp"
  by (simp add: DNIC_extract_log_def DNIC_extract_def DNIC_subjects_log_snd Let_def
      split: sum.splits)

lemma normalized_before_log_missing:
  "k \<in> set (fst (normalized_before_log c subj year ekj is)) \<Longrightarrow> ekj k = None \<Longrightarrow>
     snd (normalized_before_log c subj year ekj is) = Inl KeyError"
  by (induction "is") (auto simp: lookup_def split: sum.splits prod.splits option.splits if_splits)

lemma DNIC_subjects_log_missing:
  "k \<in> set (fst (DNIC_subjects_log c year ekj cp cbp yp cpv ss)) \<Longrightarrow> ekj k = None \<Longrightarrow>
     snd (DNIC_subjects_log c year ekj cp cbp yp cpv ss) = Inl KeyError"
proof (induction ss)
  case Nil
  then show ?case by simp
next
  case (Cons s ss)
  show ?case
  proof (cases "ekj (s, yp)")
    case None
    then show ?thesis by (simp add: lookup_def)
  next
    case (Some b)
    note nb = normalized_before_log_missing [of k c s year ekj "[year..yp - 3]"]
    obtain ks r where L: "normalized_before_log c s year ekj [year..yp - 3] = (ks, r)"
      by (cases "normalized_before_log c s year ekj [year..yp - 3]")
    obtain ks' r' where R: "DNIC_subjects_log c year ekj cp cbp yp cpv ss = (ks', r')"
      by (cases "DNIC_subjects_log c year ekj cp cbp yp cpv ss")
    have kne: "k \<noteq> (s, yp)" using Some Cons.prems(2) by auto
    show ?thesis
      using Cons.prems Cons.IH nb kne Some
      by (auto simp: lookup_def L R split: sum.splits if_splits)
  qed
qed

lemma Quartile_scores_log_snd:
  "snd (Quartile_scores_log c50 year before after ss) = Quartile_scores c50 year before after ss"
  by (induction ss) (auto split: sum.splits prod.splits)

lemma Quartile_scores_log_missing:
  "(t, k) \<in> set (fst (Quartile_scores_log c50 year before after ss)) \<Longrightarrow>
   (case t of Before \<Rightarrow> before k = None | After \<Rightarrow> after k = None) \<Longrightarrow>
     snd (Quartile_scores_log c50 year before after ss) = Inl KeyError"
  by (induction ss)
     (auto simp: lookup_def split: sum.splits prod.splits option.splits if_splits table.splits)

text \<open>
  Claim C4. Whenever \<open>DNIC.extract\<close> subscripts \<open>ekj_dic\<close>, or \<open>Quartile.extract\<close> subscripts
  \<open>c_dic_before\<close> or \<open>c_dic_after\<close>, with a \<open>(subject, year)\<close> key the table does not have,
  the call raises (\<open>KeyError\<close>): it returns no boolean and substitutes no default.
\<close>

theorem missing_baseline_key_raises:
  "(k \<in> set (fst (DNIC_extract_log c subjs year ekj_dic c_peak c_before_peak)) \<and> ekj_dic k = None
      \<longrightarrow> DNIC_extract c subjs year ekj_dic c_peak c_before_peak = Inl KeyError) \<and>
   ((t, k') \<in> set (fst (Quartile_extract_log c50 subjs' year' c_dic_before c_dic_after)) \<and>
    (case t of Before \<Rightarrow> c_dic_before k' = None | After \<Rightarrow> c_dic_after k' = None)
      \<longrightarrow> Quartile_extract c50 subjs' year' c_dic_before c_dic_after = Inl KeyError)"
proof (intro conjI impI)
  assume a: "k \<in> set (fst (DNIC_extract_log c subjs year ekj_dic c_peak c_before_peak)) \<and> ekj_dic k = None"
  then have "snd (DNIC_extract_log c subjs year ekj_dic c_peak c_before_peak) = Inl KeyError"
    by (auto simp: DNIC_extract_log_def Let_def DNIC_subjects_log_missing split: sum.splits if_splits)
  then show "DNIC_extract c subjs year ekj_dic c_peak c_before_peak = Inl KeyError"
    by (simp add: DNIC_extract_log_snd)
next
  assume a: "(t, k') \<in> set (fst (Quartile_extract_log c50 subjs' year' c_dic_before c_dic_after)) \<and>
    (case t of Before \<Rightarrow> c_dic_before k' = None | After \<Rightarrow> c_dic_after k' = None)"
  obtain ks r where L: "Quartile_scores_log c50 year' c_dic_before c_dic_after subjs' = (ks, r)"
    by (cases "Quartile_scores_log c50 year' c_dic_before c_dic_after subjs'")
  have "(t, k') \<in> set ks" using a by (auto simp: Quartile_extract_log_def L split: sum.splits)
  with a Quartile_scores_log_missing [of t k' c50 year' c_dic_before c_dic_after subjs']
  have "r = Inl KeyError" by (simp add: L)
  moreover have "Quartile_scores c50 year' c_dic_before c_dic_after subjs' = r"
    using Quartile_scores_log_snd [of c50 year' c_dic_before c_dic_after subjs'] by (simp add: L)
  ultimately show "Quartile_extract c50 subjs' year' c_dic_before c_dic_after = Inl KeyError"
    by (simp add: Quartile_extract_def)
qed

theorem missing_baseline_key_raises_witness:
  "(''x'', 2003) \<in> set (fst (DNIC_extract_log [0, 0, 0, 5] [''x''] 2000 Map.empty 2 1)) \<and>
   (Map.empty :: key \<rightharpoonup> real) (''x'', 2003) = None \<and>
   DNIC_extract [0, 0, 0, 5] [''x''] 2000 Map.empty 2 1 = Inl KeyError \<and>
   (After, ''x'', 2000) \<in> set (fst (Quartile_extract_log 3 [''x''] 2000 [(''x'', 2000) \<mapsto> 1] Map.empty)) \<and>
   (Map.empty :: key \<rightharpoonup> int) (''x'', 2000) = None \<and>
   Quartile_extract 3 [''x''] 2000 [(''x'', 2000) \<mapsto> 1] Map.empty = Inl KeyError"
proof -
  have d: "(''x'', 2003) \<in> set (fst (DNIC_extract_log [0, 0, 0, 5] [''x''] 2000 Map.empty 2 1))"
    by (simp add: DNIC_extract_log_def np_argmax_def lookup_def)
  have q: "(After, ''x'', 2000)
      \<in> set (fst (Quartile_extract_log 3 [''x''] 2000 [(''x'', 2000) \<mapsto> 1] Map.empty))"
    by (simp add: Quartile_extract_log_def lookup_def)
  show ?thesis
    using d q
      missing_baseline_key_raises [of "(''x'', 2003)" "[0, 0, 0, 5]" "[''x'']" 2000 Map.empty 2 1
        After "(''x'', 2000)" 3 "[''x'']" 2000 "[(''x'', 2000) \<mapsto> 1]" Map.empty]
    by simp
qed

section \<open>DNIC.extract on a peak before offset 3\<close>

lemma DNIC_subjects_empty_range:
  assumes "yp - 3 < year" and "subj \<in> set ss" and "ekj (subj, yp) = Some b" and "b \<noteq> 0"
    and "c_peak < real_of_int cpv / b"
  shows "\<exists>e. DNIC_subjects c year ekj c_peak cbp yp cpv ss = Inl e"
  using assms(2)
proof (induction ss)
  case Nil
  then show ?case by simp
next
  case (Cons s ss)
  show ?case
  proof (cases "s = subj")
    case True
    then show ?thesis
      using assms(1,3,4,5) by (simp add: lookup_def py_div_def np_max_def)
  next
    case False
    with Cons have "\<exists>e. DNIC_subjects c year ekj c_peak cbp yp cpv ss = Inl e" by simp
    then show ?thesis
      using assms(1) by (auto simp: lookup_def py_div_def np_max_def split: option.splits)
  qed
qed

text \<open>
  Claim C10. There are well-formed inputs on which \<open>DNIC.extract\<close> raises: whenever the
  peak offset satisfies \<open>len(c) div 2 < t_peak < 3\<close> and the normalised peak exceeds
  \<open>c_peak\<close> for some subject whose baseline is present, the inner maximum is over an empty
  range of years and the call ends in an error; for \<open>c = [0, 0, 5]\<close> it is the
  \<open>ValueError\<close> of \<open>max\<close>.
\<close>

theorem DNIC_extract_raises_on_empty_range:
  assumes "np_argmax c = Inr t_peak" and "length c div 2 < t_peak" and "t_peak < 3"
    and "subj \<in> set subjs" and "ekj_dic (subj, year + int t_peak) = Some b" and "b \<noteq> 0"
    and "c_peak < real_of_int (c ! t_peak) / b"
  shows "\<exists>e. DNIC_extract c subjs year ekj_dic c_peak c_before_peak = Inl e"
proof -
  have "year + int t_peak - 3 < year" using assms(3) by simp
  then have "\<exists>e. DNIC_subjects c year ekj_dic c_peak c_before_peak (year + int t_peak)
                 (c ! t_peak) subjs = Inl e"
    using assms(4,5,6,7) by (rule DNIC_subjects_empty_range)
  then show ?thesis using assms(1,2) by (simp add: DNIC_extract_def)
qed

theorem DNIC_extract_raises_on_empty_range_witness:
  "np_argmax [0, 0, 5 :: int] = Inr 2 \<and> length [0, 0, 5 :: int] div 2 < 2 \<and> (2::nat) < 3 \<and>
   ''x'' \<in> set [''x''] \<and> [(''x'', 2002) \<mapsto> 1 :: real] (''x'', 2000 + int 2) = Some 1 \<and>
   (1::real) \<noteq> 0 \<and> (2::real) < real_of_int ([0, 0, 5] ! 2) / 1 \<and>
   DNIC_extract [0, 0, 5] [''x''] 2000 [(''x'', 2002) \<mapsto> 1] 2 1 = Inl ValueError"
proof -
  have a: "np_argmax [0, 0, 5 :: int] = Inr 2" by (simp add: np_argmax_def)
  have run: "DNIC_extract [0, 0, 5] [''x''] 2000 [(''x'', 2002) \<mapsto> 1] 2 1 = Inl ValueError"
    by (simp add: DNIC_extract_def np_argmax_def lookup_def py_div_def np_max_def)
  from DNIC_extract_raises_on_empty_range [of "[0, 0, 5]" 2 "''x''" "[''x'']"
      "[(''x'', 2002) \<mapsto> 1]" 2000 1 2 1] a run
  show ?thesis by simp
qed

section \<open>DNIC.extract against its classification rule\<close>

lemma normalized_before_log_present:
  "\<forall>k\<in>set (fst (normalized_before_log c subj year ekj is)). \<exists>v. ekj k = Some v \<and> v \<noteq> 0 \<Longrightarrow>
     normalized_before_log c subj year ekj is
       = (map (\<lambda>i. (subj, i)) is,
          Inr (map (\<lambda>i. real_of_int (c ! nat (i - year)) / the (ekj (subj, i))) is))"
proof (induction "is")
  case Nil
  then show ?case by simp
next
  case (Cons i "is")
  have "(subj, i) \<in> set (fst (normalized_before_log c subj year ekj (i # is)))"
    by (auto simp: lookup_def split: sum.splits prod.splits option.splits)
  then obtain b where b: "ekj (subj, i) = Some b" "b \<noteq> 0" using Cons.prems by blast
  obtain ks r where L: "normalized_before_log c subj year ekj is = (ks, r)"
    by (cases "normalized_before_log c subj year ekj is")
  have step: "normalized_before_log c subj year ekj (i # is)
      = ((subj, i) # ks, case r of Inl e \<Rightarrow> Inl e
                          | Inr qs \<Rightarrow> Inr (real_of_int (c ! nat (i - year)) / b # qs))"
    by (simp add: lookup_def py_div_def b L split: sum.splits)
  have "\<forall>k\<in>set ks. \<exists>v. ekj k = Some v \<and> v \<noteq> 0" using Cons.prems unfolding step by simp
  then have "normalized_before_log c subj year ekj is
       = (map (\<lambda>i. (subj, i)) is,
          Inr (map (\<lambda>i. real_of_int (c ! nat (i - year)) / the (ekj (subj, i))) is))"
    using Cons.IH by (simp add: L)
  then show ?case unfolding step by (simp add: L b)
qed

lemma DNIC_subjects_log_rule:
  assumes range: "year \<le> yp - 3"
    and keys: "\<forall>k\<in>set (fst (DNIC_subjects_log c year ekj cp cbp yp cpv ss)).
                 \<exists>v. ekj k = Some v \<and> v \<noteq> 0"
  shows "snd (DNIC_subjects_log c year ekj cp cbp yp cpv ss) =
           Inr (\<exists>subj\<in>set ss.
                  cp < real_of_int cpv / the (ekj (subj, yp)) \<and>
                  Max ((\<lambda>i. real_of_int (c ! nat (i - year)) / the (ekj (subj, i)))
                         ` {year..yp - 3}) < cbp)"
  using keys
proof (induction ss)
  case Nil
  then show ?case by simp
next
  case (Cons s ss)
  let ?f = "\<lambda>s i. real_of_int (c ! nat (i - year)) / the (ekj (s, i))"
  let ?all = "fst (DNIC_subjects_log c year ekj cp cbp yp cpv (s # ss))"
  obtain ks r where L: "normalized_before_log c s year ekj [year..yp - 3] = (ks, r)"
    by (cases "normalized_before_log c s year ekj [year..yp - 3]")
  obtain ks' r' where R: "DNIC_subjects_log c year ekj cp cbp yp cpv ss = (ks', r')"
    by (cases "DNIC_subjects_log c year ekj cp cbp yp cpv ss")
  have "(s, yp) \<in> set ?all"
    by (auto simp: lookup_def L R split: sum.splits option.splits)
  then obtain b where b: "ekj (s, yp) = Some b" "b \<noteq> 0" using Cons.prems by blast
  show ?case
  proof (cases "cp < real_of_int cpv / b")
    case False
    then have all: "?all = (s, yp) # ks'" and res: "snd (DNIC_subjects_log c year ekj cp cbp yp cpv (s # ss)) = r'"
      by (simp_all add: lookup_def py_div_def b R)
    have "\<forall>k\<in>set ks'. \<exists>v. ekj k = Some v \<and> v \<noteq> 0" using Cons.prems unfolding all by simp
    then have "r' = Inr (\<exists>subj\<in>set ss. cp < real_of_int cpv / the (ekj (subj, yp)) \<and>
                  Max (?f subj ` {year..yp - 3}) < cbp)"
      using Cons.IH by (simp add: R)
    then show ?thesis unfolding res using False by (simp add: b)
  next
    case True
    have sub: "set ks \<subseteq> set ?all"
      using True by (auto simp: lookup_def py_div_def b L R split: sum.splits)
    then have "\<forall>k\<in>set (fst (normalized_before_log c s year ekj [year..yp - 3])).
                 \<exists>v. ekj k = Some v \<and> v \<noteq> 0"
      using Cons.prems by (auto simp: L)
    from normalized_before_log_present [OF this]
    have r: "r = Inr (map (?f s) [year..yp - 3])" by (simp add: L)
    have ne: "map (?f s) [year..yp - 3] \<noteq> []" using range by simp
    have mx: "np_max (map (?f s) [year..yp - 3]) = Inr (Max (?f s ` {year..yp - 3}))"
      using np_max_Max [OF ne] by simp
    show ?thesis
    proof (cases "Max (?f s ` {year..yp - 3}) < cbp")
      case hit: True
      then show ?thesis using True by (simp add: lookup_def py_div_def b L r mx)
    next
      case miss: False
      then have all: "?all = (s, yp) # ks @ ks'"
        and res: "snd (DNIC_subjects_log c year ekj cp cbp yp cpv (s # ss)) = r'"
        using True by (simp_all add: lookup_def py_div_def b L r mx R)
      have "\<forall>k\<in>set ks'. \<exists>v. ekj k = Some v \<and> v \<noteq> 0" using Cons.prems unfolding all by simp
      then have "r' = Inr (\<exists>subj\<in>set ss. cp < real_of_int cpv / the (ekj (subj, yp)) \<and>
                  Max (?f subj ` {year..yp - 3}) < cbp)"
        using Cons.IH by (simp add: R)
      then show ?thesis unfolding res using miss True by (simp add: b)
    qed
  qed
qed

text \<open>
  Claim C1, as amended. Let \<open>t_peak\<close> be the offset of the first occurrence of the maximum
  of a non-empty history, at least 3 whenever it exceeds \<open>len(c) div 2\<close>, and let \<open>ekj_dic\<close>
  hold a nonzero value at every key the call looks up. Then \<open>DNIC.extract\<close> returns True
  exactly when \<open>t_peak\<close> is strictly greater than \<open>len(c) div 2\<close> and, for at least one
  subject, the normalised peak exceeds \<open>c_peak\<close> and the largest normalised count over the
  years \<open>year, ..., y_peak - 3\<close> is below \<open>c_before_peak\<close>; otherwise it returns False. The
  window is that of \<open>range(year, y_peak - 2)\<close>: the year two years before the peak year
  is not in it.
\<close>

theorem DNIC_extract_rule:
  assumes peak: "t_peak < length c" "c ! t_peak = Max (set c)" "\<forall>j<t_peak. c ! j \<noteq> Max (set c)"
    and range: "length c div 2 < t_peak \<longrightarrow> 3 \<le> t_peak"
    and keys: "\<forall>k\<in>set (fst (DNIC_extract_log c subjs year ekj_dic c_peak c_before_peak)).
                 \<exists>v. ekj_dic k = Some v \<and> v \<noteq> 0"
  shows "DNIC_extract c subjs year ekj_dic c_peak c_before_peak =
           Inr (length c div 2 < t_peak \<and> DNIC_rule c subjs year ekj_dic c_peak c_before_peak t_peak)"
proof -
  have ne: "c \<noteq> []" using peak(1) by auto
  have "(LEAST i. c ! i = Max (set c)) = t_peak"
    by (rule Least_equality) (use peak in \<open>auto simp: not_less [symmetric]\<close>)
  then have am: "np_argmax c = Inr t_peak" using np_argmax_Least [OF ne] by simp
  show ?thesis
  proof (cases "length c div 2 < t_peak")
    case True
    then have r: "year \<le> year + int t_peak - 3" using range by simp
    have log: "DNIC_extract_log c subjs year ekj_dic c_peak c_before_peak
        = DNIC_subjects_log c year ekj_dic c_peak c_before_peak (year + int t_peak) (c ! t_peak) subjs"
      using True by (simp add: DNIC_extract_log_def am)
    from DNIC_subjects_log_rule [OF r keys [unfolded log]]
    show ?thesis
      using True unfolding DNIC_subjects_log_snd by (simp add: DNIC_extract_def am DNIC_rule_def)
  next
    case False
    then show ?thesis by (simp add: DNIC_extract_def am)
  qed
qed

text \<open>
  The rule alone does not decide the result, whichever way its window is read: with the
  peak in the first half of the history (\<open>[0, 0, 0, 5, 0, 0, 0, 0]\<close>) the function returns
  False although the rule holds. And the window ends three years before the peak year:
  for \<open>[0, 0, 0, 0, 0, 7, 0, 9]\<close> the count 7, two years before the peak, is not looked at
  and the function returns True, where a window that includes that year gives False.
\<close>

theorem DNIC_extract_gate_and_window_counterexample:
  "np_argmax [0, 0, 0, 5, 0, 0, 0, 0 :: int] = Inr 3 \<and>
   DNIC_rule [0, 0, 0, 5, 0, 0, 0, 0] [''x''] 2000
     [(''x'', 2000) \<mapsto> 1, (''x'', 2001) \<mapsto> 1, (''x'', 2003) \<mapsto> 1] 2 1 3 \<and>
   DNIC_rule_inclusive [0, 0, 0, 5, 0, 0, 0, 0] [''x''] 2000
     [(''x'', 2000) \<mapsto> 1, (''x'', 2001) \<mapsto> 1, (''x'', 2003) \<mapsto> 1] 2 1 3 \<and>
   DNIC_extract [0, 0, 0, 5, 0, 0, 0, 0] [''x''] 2000
     [(''x'', 2000) \<mapsto> 1, (''x'', 2001) \<mapsto> 1, (''x'', 2003) \<mapsto> 1] 2 1 = Inr False \<and>
   np_argmax [0, 0, 0, 0, 0, 7, 0, 9 :: int] = Inr 7 \<and>
   \<not> DNIC_rule_inclusive [0, 0, 0, 0, 0, 7, 0, 9] [''x''] 2000
     [(''x'', 2000) \<mapsto> 1, (''x'', 2001) \<mapsto> 1, (''x'', 2002) \<mapsto> 1, (''x'', 2003) \<mapsto> 1,
      (''x'', 2004) \<mapsto> 1, (''x'', 2005) \<mapsto> 1, (''x'', 2007) \<mapsto> 1] 2 1 7 \<and>
   DNIC_extract [0, 0, 0, 0, 0, 7, 0, 9] [''x''] 2000
     [(''x'', 2000) \<mapsto> 1, (''x'', 2001) \<mapsto> 1, (''x'', 2002) \<mapsto> 1, (''x'', 2003) \<mapsto> 1,
      (''x'', 2004) \<mapsto> 1, (''x'', 2005) \<mapsto> 1, (''x'', 2007) \<mapsto> 1] 2 1 = Inr True"
proof -
  have w1: "{2000..2001 :: int} = {2000, 2001}" by auto
  have w2: "{2000..2005 :: int} = {2000, 2001, 2002, 2003, 2004, 2005}" by auto
  have u: "[2000..2004 :: int] = [2000, 2001, 2002, 2003, 2004]" by (simp add: upto_rec1)
  show ?thesis
    by (simp add: DNIC_rule_def DNIC_rule_inclusive_def DNIC_extract_def np_argmax_def
        lookup_def py_div_def np_max_def w1 w2 u)
qed

theorem DNIC_extract_rule_witness:
  "DNIC_extract [0, 0, 0, 0, 0, 5] [''x'', ''y''] 2000
     [(''x'', 2000) \<mapsto> 1, (''x'', 2001) \<mapsto> 1, (''x'', 2002) \<mapsto> 1, (''x'', 2005) \<mapsto> 1] 2 1
     = Inr True \<and>
   [(''x'', 2000::int) \<mapsto> 1::real, (''x'', 2001) \<mapsto> 1, (''x'', 2002) \<mapsto> 1, (''x'', 2005) \<mapsto> 1]
     (''y'', 2005) = None \<and>
   DNIC_rule [0, 0, 0, 0, 0, 5] [''x'', ''y''] 2000
     [(''x'', 2000) \<mapsto> 1, (''x'', 2001) \<mapsto> 1, (''x'', 2002) \<mapsto> 1, (''x'', 2005) \<mapsto> 1] 2 1 5"
proof -
  let ?c = "[0, 0, 0, 0, 0, 5 :: int]"
  let ?d = "[(''x'', 2000::int) \<mapsto> 1::real, (''x'', 2001) \<mapsto> 1, (''x'', 2002) \<mapsto> 1, (''x'', 2005) \<mapsto> 1]"
  have mx: "Max (set ?c) = 5" by simp
  have p1: "5 < length ?c" "?c ! 5 = Max (set ?c)" by simp_all
  have p2: "\<forall>j<5. ?c ! j \<noteq> Max (set ?c)"
    unfolding mx by (simp add: less_Suc_eq eval_nat_numeral all_conj_distrib)
  have r: "length ?c div 2 < 5 \<longrightarrow> 3 \<le> (5::nat)" by simp
  have u: "[2000..2002 :: int] = [2000, 2001, 2002]" by (simp add: upto_rec1)
  have log: "fst (DNIC_extract_log ?c [''x'', ''y''] 2000 ?d 2 1)
      = [(''x'', 2005), (''x'', 2000), (''x'', 2001), (''x'', 2002)]"
    by (simp add: DNIC_extract_log_def np_argmax_def lookup_def py_div_def np_max_def u)
  have k: "\<forall>k\<in>set (fst (DNIC_extract_log ?c [''x'', ''y''] 2000 ?d 2 1)).
             \<exists>v. ?d k = Some v \<and> v \<noteq> 0"
    unfolding log by simp
  have run: "DNIC_extract ?c [''x'', ''y''] 2000 ?d 2 1 = Inr True"
    by (simp add: DNIC_extract_def np_argmax_def lookup_def py_div_def np_max_def u)
  from DNIC_extract_rule [of 5 ?c "[''x'', ''y'']" 2000 ?d 2 1, OF p1 p2 r k] run
  show ?thesis by simp
qed

section \<open>The rows of a frame\<close>

lemma frame_nth:
  assumes "length ys = length xs" and "length zs = length xs"
  shows "frame xs ys zs = map (\<lambda>i. (xs ! i, ys ! i, zs ! i)) [0..<length xs]"
  using assms by (intro nth_equalityI) (simp_all add: frame_def)

section \<open>Quartile.get_c_dic selects an order statistic\<close>

subsection \<open>Rounding to a double\<close>

lemma round_half_even_le: "real_of_int (round_half_even x) \<le> x + 1 / 2"
  unfolding round_half_even_def Let_def by (auto; linarith)

lemma round_half_even_nonneg: "0 \<le> x \<Longrightarrow> 0 \<le> round_half_even x"
  unfolding round_half_even_def Let_def by (auto; linarith)

lemma round_half_even_of_int: "round_half_even (of_int k) = k"
  by (simp add: round_half_even_def)

lemma round_double_nonneg: "0 \<le> x \<Longrightarrow> 0 \<le> round_double x"
  by (simp add: round_double_def Let_def round_half_even_nonneg)

lemma round_double_le:
  assumes "0 < x"
  shows "round_double x \<le> x * (1 + 1 / 2 ^ 53)"
proof -
  define e where "e = \<lfloor>log 2 \<bar>x\<bar>\<rfloor>"
  define u :: real where "u = 2 powr of_int (e - 52)"
  have upos: "0 < u" by (simp add: u_def)
  have "2 powr of_int e \<le> 2 powr log 2 x"
    using assms by (intro powr_mono) (simp_all add: e_def)
  then have pe: "2 powr of_int e \<le> x" using assms by simp
  have "u = 2 powr of_int e * 2 powr (- 52)"
    by (simp add: u_def powr_add [symmetric])
  also have "2 powr (- 52 :: real) = 1 / 2 ^ 52"
    by (simp add: powr_minus_divide powr_realpow [symmetric])
  finally have u: "u = 2 powr of_int e / 2 ^ 52" by simp
  have "round_double x = of_int (round_half_even (x / u)) * u"
    using assms by (simp add: round_double_def Let_def e_def u_def)
  also have "\<dots> \<le> (x / u + 1 / 2) * u"
    using upos round_half_even_le [of "x / u"] by (intro mult_right_mono) simp_all
  also have "\<dots> = x + u / 2" using upos by (simp add: field_simps)
  also have "\<dots> \<le> x + (x / 2 ^ 52) / 2" using pe by (simp add: u divide_right_mono)
  also have "\<dots> = x * (1 + 1 / 2 ^ 53)" by (simp add: field_simps)
  finally show ?thesis .
qed

lemma round_double_binade:
  assumes lo: "2 powr of_int e \<le> \<bar>x\<bar>" and hi: "\<bar>x\<bar> < 2 powr of_int (e + 1)"
  shows "round_double x
           = of_int (round_half_even (x / 2 powr of_int (e - 52))) * 2 powr of_int (e - 52)"
proof -
  have pos: "0 < \<bar>x\<bar>" using lo by (rule less_le_trans [rotated]) simp
  have "of_int e \<le> log 2 \<bar>x\<bar>" using lo pos by (simp add: le_log_iff)
  moreover have "log 2 \<bar>x\<bar> < of_int e + 1" using hi pos by (simp add: log_less_iff)
  ultimately have "\<lfloor>log 2 \<bar>x\<bar>\<rfloor> = e" by (intro floor_unique) simp_all
  then show ?thesis using pos by (simp add: round_double_def Let_def)
qed

lemma round_double_half_to_one:
  assumes "1 / 2 \<le> x" and "x < 1"
  shows "round_double x = of_int (round_half_even (x * 2 ^ 53)) / 2 ^ 53"
proof -
  have p: "2 powr (- 53 :: real) = 1 / 2 ^ 53" "2 powr (- 1 :: real) = 1 / 2"
    by (simp_all add: powr_minus_divide powr_realpow [symmetric])
  have "round_double x
      = of_int (round_half_even (x / 2 powr of_int (- 1 - 52))) * 2 powr of_int (- 1 - 52)"
    using assms by (intro round_double_binade) (simp_all add: p)
  then show ?thesis by (simp add: p)
qed

lemma round_double_two_to_four:
  assumes "2 \<le> x" and "x < 4"
  shows "round_double x = of_int (round_half_even (x * 2 ^ 51)) / 2 ^ 51"
proof -
  have p: "2 powr (- 51 :: real) = 1 / 2 ^ 51"
    by (simp add: powr_minus_divide powr_realpow [symmetric])
  have q: "2 powr (2 :: real) = 4" by (simp add: powr_numeral)
  have "round_double x
      = of_int (round_half_even (x / 2 powr of_int (1 - 52))) * 2 powr of_int (1 - 52)"
    using assms by (intro round_double_binade) (simp_all add: q)
  then show ?thesis by (simp add: p)
qed

lemma double_below_one:
  assumes dbl: "round_double rate = rate" and "rate < 1"
  shows "rate \<le> 1 - 1 / 2 ^ 53"
proof (cases "1 / 2 \<le> rate")
  case False
  have "(1 / 2 :: real) \<le> 1 - 1 / 2 ^ 53" by simp
  with False show ?thesis by linarith
next
  case True
  define k where "k = round_half_even (rate * 2 ^ 53)"
  have r: "rate = of_int k / 2 ^ 53"
    using round_double_half_to_one [OF True assms(2)] dbl by (simp add: k_def)
  then have "real_of_int k < 2 ^ 53" using assms(2) by (simp add: field_simps)
  then have "real_of_int k < real_of_int (2 ^ 53)" by simp
  then have "k < 2 ^ 53" by (simp only: of_int_less_iff)
  then have "k \<le> 2 ^ 53 - 1" by simp
  then have "real_of_int k \<le> real_of_int (2 ^ 53 - 1)" by (simp only: of_int_le_iff)
  then have "real_of_int k \<le> 2 ^ 53 - 1" by simp
  then have "real_of_int k / 2 ^ 53 \<le> (2 ^ 53 - 1) / 2 ^ 53" by (simp add: divide_right_mono)
  then show ?thesis unfolding r [symmetric] by (simp add: field_simps)
qed

lemma rounded_product_in_range:
  assumes "0 < n" and "0 \<le> rate" and "rate \<le> 1 - 1 / 2 ^ 53"
  shows "0 \<le> \<lfloor>round_double (real n * rate)\<rfloor>"
    and "\<lfloor>round_double (real n * rate)\<rfloor> < int n"
proof -
  let ?x = "real n * rate"
  have nn: "0 \<le> ?x" using assms(2) by simp
  then show "0 \<le> \<lfloor>round_double ?x\<rfloor>" using round_double_nonneg [OF nn] by simp
  have "round_double ?x < real n"
  proof (cases "?x = 0")
    case True
    then show ?thesis using assms(1) by (simp add: round_double_def)
  next
    case False
    with nn have pos: "0 < ?x" by (simp only: order_less_le) simp
    have "round_double ?x \<le> ?x * (1 + 1 / 2 ^ 53)" by (rule round_double_le [OF pos])
    also have "\<dots> \<le> (real n * (1 - 1 / 2 ^ 53)) * (1 + 1 / 2 ^ 53)"
      using assms(3) by (intro mult_right_mono mult_left_mono) simp_all
    also have "\<dots> = real n * ((1 - 1 / 2 ^ 53) * (1 + 1 / 2 ^ 53))" by simp
    also have "\<dots> < real n * 1"
      using assms(1) by (intro mult_strict_left_mono) simp_all
    finally show ?thesis by simp
  qed
  then have "round_double ?x < real_of_int (int n)" by simp
  then show "\<lfloor>round_double ?x\<rfloor> < int n" by (simp only: floor_less_iff)
qed

subsection \<open>The table\<close>

lemma py_index_rounded:
  assumes "xs \<noteq> []" and "0 \<le> rate" and "rate \<le> 1 - 1 / 2 ^ 53"
  shows "py_index xs (py_int (round_double (real (length xs) * rate)))
           = Inr (xs ! nat \<lfloor>round_double (real (length xs) * rate)\<rfloor>)"
proof -
  have n: "0 < length xs" using assms(1) by simp
  have nn: "0 \<le> round_double (real (length xs) * rate)"
    using assms(2) by (intro round_double_nonneg) simp
  show ?thesis
    using rounded_product_in_range [OF n assms(2,3)] nn
    by (simp add: py_index_def py_int_def)
qed

lemma get_c_dic_subjs_result:
  assumes "0 \<le> rate" and "rate \<le> 1 - 1 / 2 ^ 53"
  shows "get_c_dic_subjs df rate year ss d =
           Inr (\<lambda>k. if snd k = year \<and> fst k \<in> set ss \<and> c_dic_targets df (fst k) year \<noteq> []
                    then Some (rounded_order_statistic (map fst (c_dic_targets df (fst k) year)) rate)
                    else d k)"
proof (induction ss arbitrary: d)
  case Nil
  then show ?case by simp
next
  case (Cons s ss)
  show ?case
  proof (cases "c_dic_targets df s year = []")
    case True
    then show ?thesis by (auto simp: Cons.IH intro!: ext)
  next
    case False
    then have ne: "sort (map fst (c_dic_targets df s year)) \<noteq> []"
      by (metis length_sort length_map length_0_conv)
    have ix: "py_index (sort (map fst (c_dic_targets df s year)))
                (py_int (round_double (real (length (c_dic_targets df s year)) * rate)))
              = Inr (rounded_order_statistic (map fst (c_dic_targets df s year)) rate)"
      using py_index_rounded [OF ne assms] by (simp add: rounded_order_statistic_def)
    show ?thesis using False by (auto simp: Cons.IH ix intro!: ext)
  qed
qed

lemma get_c_dic_years_result:
  assumes "0 \<le> rate" and "rate \<le> 1 - 1 / 2 ^ 53"
  shows "get_c_dic_years df rate ys ss d =
           Inr (\<lambda>k. if snd k \<in> set ys \<and> fst k \<in> set ss \<and> c_dic_targets df (fst k) (snd k) \<noteq> []
                    then Some (rounded_order_statistic
                                 (map fst (c_dic_targets df (fst k) (snd k))) rate)
                    else d k)"
proof (induction ys arbitrary: d)
  case Nil
  then show ?case by simp
next
  case (Cons y ys)
  show ?case
    by (auto simp: get_c_dic_subjs_result [OF assms] Cons.IH intro!: ext)
qed

lemma c_dic_targets_group:
  assumes "length ys = length xs" and "length zs = length xs"
  shows "map fst (c_dic_targets (frame xs ys zs) subj year) = c50_group xs ys zs subj year"
  by (simp add: frame_nth [OF assms] c_dic_targets_def c50_group_def filter_map comp_def)

lemma c_dic_targets_origin:
  assumes "c_dic_targets df subj year \<noteq> []"
  shows "year \<in> set (map (\<lambda>(c50, subjs, y). y) df)"
    and "subj \<in> set (concat (map (\<lambda>(c50, subjs, y). subjs) df))"
proof -
  obtain r where r: "r \<in> set (c_dic_targets df subj year)"
    using assms by (cases "c_dic_targets df subj year") auto
  obtain c50 subjs y where rr: "r = (c50, subjs, y)" by (cases r)
  from r rr have "(c50, subjs, y) \<in> set df" "y = year" "subj \<in> set subjs"
    by (auto simp: c_dic_targets_def)
  then show "year \<in> set (map (\<lambda>(c50, subjs, y). y) df)"
    and "subj \<in> set (concat (map (\<lambda>(c50, subjs, y). subjs) df))"
    by force+
qed

text \<open>
  Claim C7, as amended. For a corpus of \<open>c50\<close> values with parallel subject lists and
  publication years, and a rate that is a double with \<open>0 \<le> rate < 1\<close>,
  \<open>Quartile.get_c_dic\<close> returns a table whose entry for \<open>(subject, year)\<close> is the element at
  index \<open>int(groupSize * rate)\<close> of the ascending-sorted \<open>c50\<close> values of the papers of that
  exact group, the product being the double-precision one (and which has no entry for an
  empty group): a selection by position, not an interpolated percentile. Whenever the
  product is exact, the index is \<open>floor(groupSize * rate)\<close>; with rate 0.5 and a group of
  five values it is the value at sorted index 2.
\<close>

theorem get_c_dic_rounded_order_statistic:
  assumes "length subjs_list = length c50_list" and "length year_list = length c50_list"
    and "round_double rate = rate" and "0 \<le> rate" and "rate < 1"
  shows "\<exists>c_dic. get_c_dic c50_list subjs_list year_list rate = Inr c_dic \<and>
           (\<forall>subj year.
              c_dic (subj, year) =
                (if c50_group c50_list subjs_list year_list subj year = [] then None
                 else Some (rounded_order_statistic
                              (c50_group c50_list subjs_list year_list subj year) rate)) \<and>
              (round_double (real (length (c50_group c50_list subjs_list year_list subj year)) * rate)
                 = real (length (c50_group c50_list subjs_list year_list subj year)) * rate
               \<longrightarrow> rounded_order_statistic (c50_group c50_list subjs_list year_list subj year) rate
                     = order_statistic (c50_group c50_list subjs_list year_list subj year) rate))"
proof -
  let ?df = "frame c50_list subjs_list year_list"
  have top: "rate \<le> 1 - 1 / 2 ^ 53" using assms(3,5) by (rule double_below_one)
  have g: "map fst (c_dic_targets ?df subj year) = c50_group c50_list subjs_list year_list subj year"
    for subj year by (rule c_dic_targets_group [OF assms(1,2)])
  have e: "c_dic_targets ?df subj year = [] \<longleftrightarrow> c50_group c50_list subjs_list year_list subj year = []"
    for subj year using g [of subj year] by (metis map_is_Nil_conv)
  show ?thesis
    unfolding get_c_dic_def Let_def get_c_dic_years_result [OF assms(4) top]
    using c_dic_targets_origin [of ?df]
    by (auto simp: g e rounded_order_statistic_def order_statistic_def
        simp del: set_map set_concat)
qed

lemma round_double_half: "round_double (1 / 2) = 1 / 2"
  using round_double_half_to_one [of "1 / 2"] by (simp add: round_half_even_def)

lemma round_double_five_halves: "round_double (5 / 2) = 5 / 2"
  using round_double_two_to_four [of "5 / 2"] by (simp add: round_half_even_def)

lemma round_double_six_tenths:
  "round_double (5404319552844595 / 9007199254740992) = 5404319552844595 / 9007199254740992"
  using round_double_half_to_one [of "5404319552844595 / 9007199254740992"]
  by (simp add: round_half_even_def)

lemma round_double_five_by_six_tenths:
  "round_double (27021597764222975 / 9007199254740992) = 3"
  using round_double_two_to_four [of "27021597764222975 / 9007199254740992"]
  by (simp add: round_half_even_def)

text \<open>
  The index is not the floor of the exact product in general. The double written \<open>0.6\<close>
  is \<open>5404319552844595 / 2 ^ 53\<close>, just below six tenths; five times it is just below 3,
  with floor 2, but the double product is \<open>3.0\<close>. On a group of five values the program
  selects sorted index 3, here the value 7, where the floor of the exact product selects
  index 2, the value 5.
\<close>

theorem get_c_dic_exact_floor_counterexample:
  "round_double (5404319552844595 / 9007199254740992) = 5404319552844595 / 9007199254740992 \<and>
   c50_group [9, 1, 7, 3, 5] [[''x''], [''x''], [''x''], [''x''], [''x'']]
     [2000, 2000, 2000, 2000, 2000] ''x'' 2000 = [9, 1, 7, 3, 5] \<and>
   order_statistic [9, 1, 7, 3, 5] (5404319552844595 / 9007199254740992) = 5 \<and>
   get_c_dic [9, 1, 7, 3, 5] [[''x''], [''x''], [''x''], [''x''], [''x'']]
     [2000, 2000, 2000, 2000, 2000] (5404319552844595 / 9007199254740992)
     = Inr [(''x'', 2000) \<mapsto> 7]"
proof -
  have up: "[0..<5] = [0, Suc 0, Suc (Suc 0), Suc (Suc (Suc 0)), Suc (Suc (Suc (Suc 0)))]"
    by (simp add: eval_nat_numeral upt_rec)
  have g: "c50_group [9, 1, 7, 3, 5] [[''x''], [''x''], [''x''], [''x''], [''x'']]
     [2000, 2000, 2000, 2000, 2000] ''x'' 2000 = [9, 1, 7, 3, 5]"
    by (simp add: c50_group_def up)
  have os: "order_statistic [9, 1, 7, 3, 5] (5404319552844595 / 9007199254740992) = 5"
    by (simp add: order_statistic_def)
  have run: "get_c_dic [9, 1, 7, 3, 5] [[''x''], [''x''], [''x''], [''x''], [''x'']]
     [2000, 2000, 2000, 2000, 2000] (5404319552844595 / 9007199254740992)
     = Inr [(''x'', 2000) \<mapsto> 7]"
    by (simp add: get_c_dic_def frame_def c_dic_targets_def py_index_def py_int_def
        round_double_five_by_six_tenths)
  show ?thesis using round_double_six_tenths g os run by simp
qed

theorem get_c_dic_rounded_order_statistic_witness:
  "length [[''x''], [''x''], [''x''], [''x''], [''x'']] = length [9, 1, 7, 3, 5 :: int] \<and>
   length [2000, 2000, 2000, 2000, 2000 :: int] = length [9, 1, 7, 3, 5 :: int] \<and>
   round_double (1 / 2) = 1 / 2 \<and> (0::real) \<le> 1 / 2 \<and> (1 / 2 :: real) < 1 \<and>
   order_statistic [9, 1, 7, 3, 5] (1 / 2) = sort [9, 1, 7, 3, 5] ! 2 \<and>
   (\<exists>c_dic. get_c_dic [9, 1, 7, 3, 5] [[''x''], [''x''], [''x''], [''x''], [''x'']]
               [2000, 2000, 2000, 2000, 2000] (1 / 2) = Inr c_dic \<and>
            c_dic (''x'', 2000) = Some 5 \<and> c_dic (''x'', 2001) = None)"
proof -
  let ?c = "[9, 1, 7, 3, 5 :: int]"
  let ?s = "[[''x''], [''x''], [''x''], [''x''], [''x'']]"
  let ?y = "[2000, 2000, 2000, 2000, 2000 :: int]"
  have up: "[0..<5] = [0, Suc 0, Suc (Suc 0), Suc (Suc (Suc 0)), Suc (Suc (Suc (Suc 0)))]"
    by (simp add: eval_nat_numeral upt_rec)
  have g: "c50_group ?c ?s ?y ''x'' 2000 = ?c" "c50_group ?c ?s ?y ''x'' 2001 = []"
    by (simp_all add: c50_group_def up)
  have os: "order_statistic ?c (1 / 2) = 5" "order_statistic ?c (1 / 2) = sort ?c ! 2"
    by (simp_all add: order_statistic_def)
  have exact: "round_double (real (length ?c) * (1 / 2)) = real (length ?c) * (1 / 2)"
    by (simp add: round_double_five_halves)
  from get_c_dic_rounded_order_statistic [of ?s ?c ?y "1 / 2"] round_double_half
  obtain c_dic where r: "get_c_dic ?c ?s ?y (1 / 2) = Inr c_dic"
    and cells: "\<And>subj year. c_dic (subj, year) =
           (if c50_group ?c ?s ?y subj year = [] then None
            else Some (rounded_order_statistic (c50_group ?c ?s ?y subj year) (1 / 2)))"
    and same: "\<And>subj year.
          round_double (real (length (c50_group ?c ?s ?y subj year)) * (1 / 2))
            = real (length (c50_group ?c ?s ?y subj year)) * (1 / 2)
          \<Longrightarrow> rounded_order_statistic (c50_group ?c ?s ?y subj year) (1 / 2)
              = order_statistic (c50_group ?c ?s ?y subj year) (1 / 2)"
    by auto
  have "rounded_order_statistic ?c (1 / 2) = order_statistic ?c (1 / 2)"
    using same [of "''x''" 2000] exact by (simp only: g)
  then have "c_dic (''x'', 2000) = Some 5" "c_dic (''x'', 2001) = None"
    using cells [of "''x''" 2000] cells [of "''x''" 2001] by (simp_all add: g os(1))
  with r show ?thesis using os(2) round_double_half by auto
qed

section \<open>DNIC.get_ekj: the sentinel and the mean\<close>

lemma citations_kj_covered:
  "\<forall>(c, subjs, y) \<in> set rows. y \<le> year \<and> year - y < int (length c) \<Longrightarrow>
     citations_kj rows year = Inr (map (\<lambda>(c, subjs, y). c ! nat (year - y)) rows)"
  by (induction rows year rule: citations_kj.induct) (auto simp: py_index_def)

lemma get_ekj_subjs_result:
  assumes "\<forall>(c, subjs, y) \<in> set df. y \<le> year \<longrightarrow> year - y < int (length c)"
  shows "get_ekj_subjs df year ss d =
           Inr (\<lambda>k. if snd k = year \<and> fst k \<in> set ss \<and> ekj_targets df (fst k) year \<noteq> []
                    then Some (ekj_value (map (\<lambda>(c, subjs, y). c ! nat (year - y))
                                            (ekj_targets df (fst k) year)))
                    else d k)"
proof (induction ss arbitrary: d)
  case Nil
  then show ?case by simp
next
  case (Cons s ss)
  have "\<forall>(c, subjs, y) \<in> set (ekj_targets df s year). y \<le> year \<and> year - y < int (length c)"
    using assms by (auto simp: ekj_targets_def)
  then have cit: "citations_kj (ekj_targets df s year) year
      = Inr (map (\<lambda>(c, subjs, y). c ! nat (year - y)) (ekj_targets df s year))"
    by (rule citations_kj_covered)
  show ?case by (auto simp: Cons.IH cit Let_def intro!: ext)
qed

lemma get_ekj_years_result:
  assumes "\<forall>year \<in> set ys. \<forall>(c, subjs, y) \<in> set df. y \<le> year \<longrightarrow> year - y < int (length c)"
  shows "get_ekj_years df ys ss d =
           Inr (\<lambda>k. if snd k \<in> set ys \<and> fst k \<in> set ss \<and> ekj_targets df (fst k) (snd k) \<noteq> []
                    then Some (ekj_value (map (\<lambda>(c, subjs, y). c ! nat (snd k - y))
                                            (ekj_targets df (fst k) (snd k))))
                    else d k)"
  using assms
proof (induction ys arbitrary: d)
  case Nil
  then show ?case by simp
next
  case (Cons y ys)
  have here: "\<forall>(c, subjs, y') \<in> set df. y' \<le> y \<longrightarrow> y - y' < int (length c)"
    using Cons.prems by simp
  have rest: "\<forall>year \<in> set ys. \<forall>(c, subjs, y) \<in> set df. y \<le> year \<longrightarrow> year - y < int (length c)"
    using Cons.prems by simp
  show ?case
    by (auto simp: get_ekj_subjs_result [OF here] Cons.IH [OF rest] intro!: ext)
qed

lemma ekj_targets_published:
  assumes "length ys = length xs" and "length zs = length xs"
  shows "ekj_targets (frame xs ys zs) subj year
           = map (\<lambda>i. (xs ! i, ys ! i, zs ! i)) (published_by ys zs subj year)"
  using assms
  by (simp add: frame_nth [OF assms] ekj_targets_def published_by_def filter_map comp_def)

lemma sum_list_qualifying:
  fixes f :: "'a \<Rightarrow> int"
  shows "\<forall>x\<in>set xs. 0 \<le> f x \<Longrightarrow>
     sum_list (map f xs) = sum_list (map f (filter (\<lambda>x. 1 \<le> f x) xs))"
proof (induction xs)
  case Nil
  then show ?case by simp
next
  case (Cons x xs)
  then have "f x = 0 \<or> 1 \<le> f x" by force
  with Cons show ?case by auto
qed

lemma sum_list_ge_length:
  fixes f :: "'a \<Rightarrow> int"
  shows "\<forall>x\<in>set xs. 1 \<le> f x \<Longrightarrow> int (length xs) \<le> sum_list (map f xs)"
  by (induction xs) auto

lemma mean_citation_positive:
  assumes "qualifying c_list subjs_list year_list subj year \<noteq> []"
  shows "0 < mean_citation c_list subjs_list year_list subj year"
proof -
  let ?q = "qualifying c_list subjs_list year_list subj year"
  have "\<forall>i\<in>set ?q. 1 \<le> cited_in c_list year_list year i" by (simp add: qualifying_def)
  then have "int (length ?q) \<le> sum_list (map (cited_in c_list year_list year) ?q)"
    by (rule sum_list_ge_length)
  moreover have "0 < length ?q" using assms by simp
  ultimately have "0 < sum_list (map (cited_in c_list year_list year) ?q)" by linarith
  then show ?thesis using \<open>0 < length ?q\<close> by (simp add: mean_citation_def)
qed

lemma ekj_value_cell:
  assumes len: "length subjs_list = length c_list" "length year_list = length c_list"
    and nonneg: "\<forall>i\<in>set (published_by subjs_list year_list subj year).
                   0 \<le> cited_in c_list year_list year i"
  shows "ekj_value (map (\<lambda>(c, subjs, y). c ! nat (year - y))
                      (ekj_targets (frame c_list subjs_list year_list) subj year))
         = (if qualifying c_list subjs_list year_list subj year = [] then - 1
            else mean_citation c_list subjs_list year_list subj year)"
proof -
  let ?p = "published_by subjs_list year_list subj year"
  let ?f = "cited_in c_list year_list year"
  have cs: "map (\<lambda>(c, subjs, y). c ! nat (year - y))
              (ekj_targets (frame c_list subjs_list year_list) subj year) = map ?f ?p"
    by (simp add: ekj_targets_published [OF len] cited_in_def comp_def)
  have q: "filter (\<lambda>x. 1 \<le> x) (map ?f ?p) = map ?f (qualifying c_list subjs_list year_list subj year)"
    by (simp add: qualifying_def filter_map comp_def)
  have s: "sum_list (map ?f ?p) = sum_list (map ?f (qualifying c_list subjs_list year_list subj year))"
    unfolding qualifying_def using nonneg by (rule sum_list_qualifying)
  show ?thesis
    unfolding cs ekj_value_def Let_def q s by (simp add: mean_citation_def)
qed

text \<open>
  Claim C2, as amended. For a corpus of parallel lists in which every history covers every
  corpus year from its publication year on and holds no negative count, \<open>DNIC.get_ekj\<close>
  returns a table that has an entry for exactly the cells \<open>(subject, year)\<close>, \<open>year\<close> a
  publication year of the corpus, for which at least one paper tagged with the subject was
  published on or before that year. Among these cells the entry is \<open>-1\<close> exactly when no
  such paper has a citation in that absolute year, and otherwise the mean citation received
  in that year by the qualifying papers, which is strictly positive.
\<close>

theorem get_ekj_cells:
  assumes len: "length subjs_list = length c_list" "length year_list = length c_list"
    and covered: "\<forall>i<length c_list. \<forall>year\<in>set year_list.
                    year_list ! i \<le> year \<longrightarrow> year - year_list ! i < int (length (c_list ! i))"
    and nonneg: "\<forall>c\<in>set c_list. \<forall>x\<in>set c. 0 \<le> x"
  shows "\<exists>ekj_dic. get_ekj c_list subjs_list year_list = Inr ekj_dic \<and>
           (\<forall>subj year.
              ekj_dic (subj, year) =
                (if year \<in> set year_list \<and> published_by subjs_list year_list subj year \<noteq> [] then
                   Some (if qualifying c_list subjs_list year_list subj year = [] then - 1
                         else mean_citation c_list subjs_list year_list subj year)
                 else None) \<and>
              (qualifying c_list subjs_list year_list subj year \<noteq> []
                 \<longrightarrow> 0 < mean_citation c_list subjs_list year_list subj year))"
proof -
  let ?df = "frame c_list subjs_list year_list"
  have rows: "set ?df = (\<lambda>i. (c_list ! i, subjs_list ! i, year_list ! i)) ` {0..<length c_list}"
    by (simp add: frame_nth [OF len])
  have cov: "\<forall>year \<in> set (remdups year_list). \<forall>(c, subjs, y) \<in> set ?df.
               y \<le> year \<longrightarrow> year - y < int (length c)"
    unfolding rows using covered by auto
  have tg: "ekj_targets ?df subj year = [] \<longleftrightarrow> published_by subjs_list year_list subj year = []"
    for subj year by (simp add: ekj_targets_published [OF len])
  have origin: "subj \<in> set (concat subjs_list)"
    if ne: "published_by subjs_list year_list subj year \<noteq> []" for subj year
  proof -
    obtain i where "i \<in> set (published_by subjs_list year_list subj year)"
      using ne by (cases "published_by subjs_list year_list subj year") auto
    then have "i < length subjs_list" "subj \<in> set (subjs_list ! i)"
      using len by (auto simp: published_by_def)
    then show ?thesis by (auto intro: nth_mem)
  qed
  have val: "ekj_value (map (\<lambda>(c, subjs, y). c ! nat (year - y)) (ekj_targets ?df subj year))
         = (if qualifying c_list subjs_list year_list subj year = [] then - 1
            else mean_citation c_list subjs_list year_list subj year)"
    if yr: "year \<in> set year_list" for subj year
  proof (rule ekj_value_cell [OF len], intro ballI)
    fix i assume i: "i \<in> set (published_by subjs_list year_list subj year)"
    then have il: "i < length c_list" and le: "year_list ! i \<le> year"
      using len by (auto simp: published_by_def)
    then have "year - year_list ! i < int (length (c_list ! i))" using covered yr by blast
    then have "nat (year - year_list ! i) < length (c_list ! i)" using le by simp
    then have "c_list ! i ! nat (year - year_list ! i) \<in> set (c_list ! i)" by (rule nth_mem)
    moreover have "c_list ! i \<in> set c_list" using il by (rule nth_mem)
    ultimately show "0 \<le> cited_in c_list year_list year i"
      using nonneg by (auto simp: cited_in_def)
  qed
  show ?thesis
    unfolding get_ekj_def get_ekj_years_result [OF cov]
    using origin by (auto simp: tg val mean_citation_positive simp del: set_concat)
qed

text \<open>
  A cell without any paper published by its year has no qualifying paper, and yet no
  sentinel: it has no entry. Here the first paper (subject \<open>x\<close>) appears in 2001 and the
  second (subject \<open>y\<close>) in 2000, and each history covers the corpus years from its own
  publication year on; the cell \<open>(x, 2000)\<close> is absent from the table.
\<close>

theorem get_ekj_absent_cell_counterexample:
  "get_ekj [[1], [1, 0]] [[''x''], [''y'']] [2001, 2000]
     = Inr [(''x'', 2001) \<mapsto> 1, (''y'', 2001) \<mapsto> - 1, (''y'', 2000) \<mapsto> 1] \<and>
   [(''x'', 2001::int) \<mapsto> 1, (''y'', 2001) \<mapsto> - 1, (''y'', 2000) \<mapsto> 1 :: real] (''x'', 2000) = None \<and>
   qualifying [[1], [1, 0]] [[''x''], [''y'']] [2001, 2000] ''x'' 2000 = []"
  by (simp add: get_ekj_def frame_def ekj_targets_def py_index_def ekj_value_def
      qualifying_def published_by_def cited_in_def upt_rec)

theorem get_ekj_cells_witness:
  "length [[''x''], [''y'']] = length [[1], [1, 0 :: int]] \<and>
   length [2001, 2000 :: int] = length [[1], [1, 0 :: int]] \<and>
   (\<exists>ekj_dic. get_ekj [[1], [1, 0]] [[''x''], [''y'']] [2001, 2000] = Inr ekj_dic \<and>
      ekj_dic (''y'', 2001) = Some (- 1) \<and> ekj_dic (''y'', 2000) = Some 1 \<and>
      ekj_dic (''x'', 2001) = Some 1 \<and> ekj_dic (''x'', 2000) = None)"
proof -
  let ?c = "[[1], [1, 0 :: int]]"
  let ?s = "[[''x''], [''y'']]"
  let ?y = "[2001, 2000 :: int]"
  have up: "[0..<2] = [0, Suc 0]" by (simp add: upt_rec)
  have cov: "\<forall>i<length ?c. \<forall>year\<in>set ?y. ?y ! i \<le> year \<longrightarrow> year - ?y ! i < int (length (?c ! i))"
    by (simp add: less_Suc_eq eval_nat_numeral all_conj_distrib)
  have nn: "\<forall>c\<in>set ?c. \<forall>x\<in>set c. 0 \<le> x" by simp
  have p: "published_by ?s ?y ''y'' 2001 = [Suc 0]" "published_by ?s ?y ''y'' 2000 = [Suc 0]"
    "published_by ?s ?y ''x'' 2001 = [0]" "published_by ?s ?y ''x'' 2000 = []"
    by (simp_all add: published_by_def up)
  have q: "qualifying ?c ?s ?y ''y'' 2001 = []" "qualifying ?c ?s ?y ''y'' 2000 = [Suc 0]"
    "qualifying ?c ?s ?y ''x'' 2001 = [0]"
    by (simp_all add: qualifying_def p cited_in_def)
  have m: "mean_citation ?c ?s ?y ''y'' 2000 = 1" "mean_citation ?c ?s ?y ''x'' 2001 = 1"
    by (simp_all add: mean_citation_def q cited_in_def)
  from get_ekj_cells [of ?s ?c ?y] cov nn
  obtain ekj_dic where r: "get_ekj ?c ?s ?y = Inr ekj_dic"
    and cells: "\<And>subj year. ekj_dic (subj, year) =
                (if year \<in> set ?y \<and> published_by ?s ?y subj year \<noteq> [] then
                   Some (if qualifying ?c ?s ?y subj year = [] then - 1
                         else mean_citation ?c ?s ?y subj year)
                 else None)"
    by auto
  have "ekj_dic (''y'', 2001) = Some (- 1)" "ekj_dic (''y'', 2000) = Some 1"
    "ekj_dic (''x'', 2001) = Some 1" "ekj_dic (''x'', 2000) = None"
    by (simp_all add: cells p q m)
  with r show ?thesis by auto
qed

end
